theory Spec2Isabelle
  imports Complex_Main
begin

section \<open>Errors, panics and the queue backend\<close>

text \<open>
  Go strings are byte sequences and \<open>len\<close> counts bytes: they are modelled as
  \<open>string\<close> (a list of 8-bit characters).  Go's \<open>int\<close> is modelled as
  \<open>int\<close>: the byte total stays below twice the message size limit and the batch
  counter grows by one per call, so neither reaches the machine word's range.
\<close>

text \<open>
  The text that \<open>errors.Wrap\<close> puts in front of an error, one constructor per
  format string of the source:
  \<open>"failed after retrying %d times"\<close>, \<open>"batch %s"\<close> / \<open>"batch %d"\<close>,
  \<open>"item %d"\<close>, \<open>"items with index between %d to %d"\<close>, a file's S3 path, and
  \<open>"failed to enqueue job_complete placeholder"\<close>.
\<close>

datatype wrap_context =
    FailedAfterRetrying int
  | BatchCtx int
  | ItemCtx int
  | ItemsBetweenCtx int int
  | PathCtx string
  | JobCompleteCtx

datatype error =
    ErrorMessageExceedsMaxSize int int
  | ErrorFailedToEnqueueMessages string
  | AwsError string
  | MarshalError
  | SyntaxError
  | ErrUnexpectedEOF
  | Wrap error wrap_context

text \<open>
  Modelled from the spec: \<open>errors.Wrap\<close> of the repository's \<open>pkg/lib/errors\<close>
  (not among the sources) "returns a wrapped error identifying the failure"; like the
  \<open>pkg/errors\<close> function it follows, it returns \<open>nil\<close> for a \<open>nil\<close> error.
  \<open>errors.WithStack\<close> only records a stack trace and is the identity here.
\<close>

definition errors_Wrap :: "error option \<Rightarrow> wrap_context \<Rightarrow> error option" where
  "errors_Wrap err c = (case err of None \<Rightarrow> None | Some e \<Rightarrow> Some (Wrap e c))"

text \<open>Run-time faults of the Go program: a call that panics does not return.\<close>

datatype panic =
    NilMapAssignment
  | IntegerDivideByZero
  | SliceBoundsOutOfRange
  | MakeSliceCapOutOfRange

datatype 'a outcome = Returns 'a | Panics panic

record SendMessageBatchRequestEntry =
  Id :: string
  MessageBody :: string
  MessageDeduplicationId :: string
  MessageGroupId :: string

text \<open>\<open>sqs.BatchResultErrorEntry\<close>: the fields the uploader reads.\<close>

record BatchResultErrorEntry =
  FailedId :: string
  Message :: string

record SendMessageBatchOutput =
  Failed :: "BatchResultErrorEntry list"

record SendMessageInput =
  InputQueueUrl :: string
  InputMessageBody :: string
  InputMessageDeduplicationId :: string
  InputMessageGroupId :: string
  InputMessageAttributes :: "(string \<times> string \<times> string) list"

text \<open>
  The queue is an external service.  Its answers are an oracle: the answer to a request
  may depend on the request and on how many requests were made before it.  Every request
  and its answer is recorded, in order, in the \<open>world\<close>.
\<close>

record awsClient =
  SendMessageBatch ::
    "nat \<Rightarrow> SendMessageBatchRequestEntry list \<Rightarrow> SendMessageBatchOutput \<times> string option"
  SendMessage :: "nat \<Rightarrow> SendMessageInput \<Rightarrow> string option"

datatype sqs_call =
    SendMessageBatchCall "SendMessageBatchRequestEntry list" SendMessageBatchOutput "string option"
  | SendMessageCall SendMessageInput "string option"

type_synonym world = "sqs_call list"

section \<open>The batch uploader (batch\_enqueuer.go)\<close>

definition messageSizeLimit :: int where
  "messageSizeLimit = 256 * 1024"

definition maxMessagesPerBatch :: int where
  "maxMessagesPerBatch = 10"

text \<open>
  \<open>Retries\<close> is a \<open>*int\<close> (\<open>None\<close> is the nil pointer).
  \<open>messageIDToListIndex\<close> is a Go map: \<open>None\<close> is the nil map, which can be read
  (every key gives the zero value) but not assigned to.
\<close>

record SQSBatchUploader =
  Client :: awsClient
  QueueURL :: string
  Retries :: "int option"
  messageList :: "SendMessageBatchRequestEntry list"
  messageIDToListIndex :: "(string \<rightharpoonup> int) option"
  totalBytes :: int
  TotalBatches :: int

text \<open>Reading a Go map: a nil map and a missing key both give the zero value.\<close>

definition mapIndex :: "(string \<rightharpoonup> int) option \<Rightarrow> string \<Rightarrow> int" where
  "mapIndex m k = (case m of None \<Rightarrow> 0 | Some f \<Rightarrow> (case f k of None \<Rightarrow> 0 | Some v \<Rightarrow> v))"

text \<open>
  \<open>enqueueToSQS\<close> (lines 94-108).  The \<open>Failed\<close> list of the output is looked at only
  when the call itself returned an error.
\<close>

definition enqueueToSQS :: "SQSBatchUploader \<Rightarrow> world \<Rightarrow> world \<times> error option" where
  "enqueueToSQS uploader w =
     (case SendMessageBatch (Client uploader) (length w) (messageList uploader) of
        (output, err) \<Rightarrow>
          (w @ [SendMessageBatchCall (messageList uploader) output err],
           (case err of
              Some e \<Rightarrow>
                (case Failed output of
                   [] \<Rightarrow> Some (AwsError e)
                 | f # _ \<Rightarrow>
                     Some (Wrap (ErrorFailedToEnqueueMessages (Message f))
                             (BatchCtx (mapIndex (messageIDToListIndex uploader) (FailedId f)))))
            | None \<Rightarrow> None)))"

text \<open>The retry count Flush uses (lines 75-78): 3 unless \<open>Retries\<close> is set.\<close>

definition retriesOf :: "SQSBatchUploader \<Rightarrow> int" where
  "retriesOf uploader = (case Retries uploader of None \<Rightarrow> 3 | Some r \<Rightarrow> r)"

text \<open>The loop of Flush (lines 82-91), from attempt number \<open>attempt\<close> with the last error \<open>err\<close>.\<close>

function flushAttempts ::
  "SQSBatchUploader \<Rightarrow> world \<Rightarrow> int \<Rightarrow> int \<Rightarrow> error option
     \<Rightarrow> SQSBatchUploader \<times> world \<times> error option" where
  "flushAttempts uploader w retries attempt err =
     (if attempt < retries then
        (case enqueueToSQS uploader w of
           (w', None) \<Rightarrow>
             (uploader\<lparr>messageList := [], messageIDToListIndex := Some Map.empty, totalBytes := 0\<rparr>,
              w', None)
         | (w', Some e) \<Rightarrow> flushAttempts uploader w' retries (attempt + 1) (Some e))
      else (uploader, w, errors_Wrap err (FailedAfterRetrying retries)))"
  by pat_completeness auto
termination
  by (relation "measure (\<lambda>(uploader, w, retries, attempt, err). nat (retries - attempt))") auto

definition Flush :: "SQSBatchUploader \<Rightarrow> world \<Rightarrow> SQSBatchUploader \<times> world \<times> error option" where
  "Flush uploader w =
     (if messageList uploader = [] then (uploader, w, None)
      else flushAttempts uploader w (retriesOf uploader) 0 None)"

text \<open>
  \<open>AddToBatch\<close> (lines 43-68).  The body is passed as a non-nil \<open>*string\<close> by every
  caller.  The message is appended to the list (line 63) before the map is assigned to
  (line 64), so a fault at line 64 leaves the list one longer.
\<close>

definition AddToBatch ::
  "SQSBatchUploader \<Rightarrow> world \<Rightarrow> string \<Rightarrow> string
     \<Rightarrow> SQSBatchUploader \<times> world \<times> error option outcome" where
  "AddToBatch uploader w ident body =
     (if int (length body) > messageSizeLimit then
        (uploader, w,
         Returns (Some (ErrorMessageExceedsMaxSize (int (length body)) messageSizeLimit)))
      else
        let message = \<lparr>Id = ident, MessageBody = body,
                        MessageDeduplicationId = ident, MessageGroupId = ident\<rparr>
        in
        (case (if int (length (MessageBody message)) + totalBytes uploader > messageSizeLimit
                  \<or> int (length (messageList uploader)) = maxMessagesPerBatch
               then Flush uploader w else (uploader, w, None)) of
           (u1, w1, Some e) \<Rightarrow> (u1, w1, Returns (Some e))
         | (u1, w1, None) \<Rightarrow>
             (let u2 = u1\<lparr>messageList := messageList u1 @ [message]\<rparr> in
              case messageIDToListIndex u2 of
                None \<Rightarrow> (u2, w1, Panics NilMapAssignment)
              | Some m \<Rightarrow>
                  (u2\<lparr>messageIDToListIndex := Some (m(ident \<mapsto> TotalBatches u2)),
                      totalBytes := totalBytes u2 + int (length (MessageBody message)),
                      TotalBatches := TotalBatches u2 + 1\<rparr>,
                   w1, Returns None))))"

text \<open>
  The uploader as the three orchestrators construct it (enqueue.go lines 127-131, 167-171,
  249-253): only \<open>Client\<close>, \<open>QueueURL\<close> and \<open>Retries\<close> are set, every other field
  has its zero value, so the map is nil.
\<close>

definition newUploader :: "awsClient \<Rightarrow> string \<Rightarrow> SQSBatchUploader" where
  "newUploader client url =
     \<lparr>Client = client, QueueURL = url, Retries = Some 3, messageList = [],
      messageIDToListIndex = None, totalBytes = 0, TotalBatches = 0\<rparr>"

section \<open>The JSON stream decoder (Go's encoding/json, as used by streamJSONToQueue)\<close>

text \<open>
  streamJSONToQueue reads its documents with \<open>json.NewDecoder(bytesBuffer)\<close> and
  \<open>dec.Decode(&doc)\<close> into a \<open>json.RawMessage\<close>.  The decoder belongs to Go's standard
  library, not to the repository; where a document ends is decided by it alone, so the
  part of it that decides this is written out here: the scanner of \<open>scanner.go\<close>, which
  reads one byte at a time with one step function per state and a stack of the objects
  and arrays that are open, and the loop of \<open>Decoder.readValue\<close> of \<open>stream.go\<close>.

  The scanner's error message and byte counter are left out, as they are not read by
  streamJSONToQueue.  The stack \<open>parseState\<close> is a list whose head is the top of the stack.
\<close>

datatype scan_code =
    scanContinue | scanBeginLiteral | scanBeginObject | scanObjectKey | scanObjectValue
  | scanEndObject | scanBeginArray | scanArrayValue | scanEndArray | scanSkipSpace
  | scanEnd | scanError

datatype parse_state = parseObjectKey | parseObjectValue | parseArrayValue

datatype step_fn =
    StateBeginValueOrEmpty | StateBeginValue | StateBeginStringOrEmpty | StateBeginString
  | StateEndValue | StateEndTop
  | StateInString | StateInStringEsc | StateInStringEscU | StateInStringEscU1
  | StateInStringEscU12 | StateInStringEscU123
  | StateNeg | State1 | State0 | StateDot | StateDot0 | StateE | StateESign | StateE0
  | StateT | StateTr | StateTru | StateF | StateFa | StateFal | StateFals
  | StateN | StateNu | StateNul
  | StateError

record scanner =
  step :: step_fn
  parseState :: "parse_state list"

definition scanner_reset :: scanner where
  "scanner_reset = \<lparr>step = StateBeginValue, parseState = []\<rparr>"

definition isSpace :: "char \<Rightarrow> bool" where
  "isSpace c = (c = CHR '' '' \<or> c = CHR 0x09 \<or> c = CHR 0x0D \<or> c = CHR 0x0A)"

definition isDigit :: "char \<Rightarrow> bool" where
  "isDigit c = (c \<in> set ''0123456789'')"

definition isDigit19 :: "char \<Rightarrow> bool" where
  "isDigit19 c = (c \<in> set ''123456789'')"

definition isHex :: "char \<Rightarrow> bool" where
  "isHex c = (c \<in> set ''0123456789abcdefABCDEF'')"

definition scanner_error :: "scanner \<Rightarrow> scanner \<times> scan_code" where
  "scanner_error s = (s\<lparr>step := StateError\<rparr>, scanError)"

text \<open>
  \<open>pushParseState\<close>: the new state is pushed, and a stack deeper than
  \<open>maxNestingDepth\<close> is an error.
\<close>

definition maxNestingDepth :: nat where
  "maxNestingDepth = 10000"

definition pushParseState :: "scanner \<Rightarrow> parse_state \<Rightarrow> scan_code \<Rightarrow> scanner \<times> scan_code" where
  "pushParseState s newParseState successState =
     (let s' = s\<lparr>parseState := newParseState # parseState s\<rparr> in
      if length (parseState s') \<le> maxNestingDepth then (s', successState)
      else scanner_error s')"

definition popParseState :: "scanner \<Rightarrow> scanner" where
  "popParseState s =
     (let ps = tl (parseState s) in
      s\<lparr>parseState := ps, step := (if ps = [] then StateEndTop else StateEndValue)\<rparr>)"

definition stateEndTop :: "scanner \<Rightarrow> char \<Rightarrow> scanner \<times> scan_code" where
  "stateEndTop s c = (if \<not> isSpace c then (s\<lparr>step := StateError\<rparr>, scanEnd) else (s, scanEnd))"

definition stateEndValue :: "scanner \<Rightarrow> char \<Rightarrow> scanner \<times> scan_code" where
  "stateEndValue s c =
     (case parseState s of
        [] \<Rightarrow> stateEndTop (s\<lparr>step := StateEndTop\<rparr>) c
      | ps # rest \<Rightarrow>
          if isSpace c then (s\<lparr>step := StateEndValue\<rparr>, scanSkipSpace)
          else (case ps of
              parseObjectKey \<Rightarrow>
                if c = CHR '':'' then
                  (s\<lparr>parseState := parseObjectValue # rest, step := StateBeginValue\<rparr>, scanObjectKey)
                else scanner_error s
            | parseObjectValue \<Rightarrow>
                if c = CHR '','' then
                  (s\<lparr>parseState := parseObjectKey # rest, step := StateBeginString\<rparr>, scanObjectValue)
                else if c = CHR ''}'' then (popParseState s, scanEndObject)
                else scanner_error s
            | parseArrayValue \<Rightarrow>
                if c = CHR '','' then (s\<lparr>step := StateBeginValue\<rparr>, scanArrayValue)
                else if c = CHR '']'' then (popParseState s, scanEndArray)
                else scanner_error s))"

definition stateBeginValue :: "scanner \<Rightarrow> char \<Rightarrow> scanner \<times> scan_code" where
  "stateBeginValue s c =
     (if isSpace c then (s, scanSkipSpace)
      else if c = CHR ''{'' then
        pushParseState (s\<lparr>step := StateBeginStringOrEmpty\<rparr>) parseObjectKey scanBeginObject
      else if c = CHR ''['' then
        pushParseState (s\<lparr>step := StateBeginValueOrEmpty\<rparr>) parseArrayValue scanBeginArray
      else if c = CHR 0x22 then (s\<lparr>step := StateInString\<rparr>, scanBeginLiteral)
      else if c = CHR ''-'' then (s\<lparr>step := StateNeg\<rparr>, scanBeginLiteral)
      else if c = CHR ''0'' then (s\<lparr>step := State0\<rparr>, scanBeginLiteral)
      else if c = CHR ''t'' then (s\<lparr>step := StateT\<rparr>, scanBeginLiteral)
      else if c = CHR ''f'' then (s\<lparr>step := StateF\<rparr>, scanBeginLiteral)
      else if c = CHR ''n'' then (s\<lparr>step := StateN\<rparr>, scanBeginLiteral)
      else if isDigit19 c then (s\<lparr>step := State1\<rparr>, scanBeginLiteral)
      else scanner_error s)"

definition stateBeginValueOrEmpty :: "scanner \<Rightarrow> char \<Rightarrow> scanner \<times> scan_code" where
  "stateBeginValueOrEmpty s c =
     (if isSpace c then (s, scanSkipSpace)
      else if c = CHR '']'' then stateEndValue s c
      else stateBeginValue s c)"

definition stateBeginString :: "scanner \<Rightarrow> char \<Rightarrow> scanner \<times> scan_code" where
  "stateBeginString s c =
     (if isSpace c then (s, scanSkipSpace)
      else if c = CHR 0x22 then (s\<lparr>step := StateInString\<rparr>, scanBeginLiteral)
      else scanner_error s)"

definition stateBeginStringOrEmpty :: "scanner \<Rightarrow> char \<Rightarrow> scanner \<times> scan_code" where
  "stateBeginStringOrEmpty s c =
     (if isSpace c then (s, scanSkipSpace)
      else if c = CHR ''}'' then
        stateEndValue (s\<lparr>parseState := parseObjectValue # tl (parseState s)\<rparr>) c
      else stateBeginString s c)"

definition stateInString :: "scanner \<Rightarrow> char \<Rightarrow> scanner \<times> scan_code" where
  "stateInString s c =
     (if c = CHR 0x22 then (s\<lparr>step := StateEndValue\<rparr>, scanContinue)
      else if c = CHR 0x5C then (s\<lparr>step := StateInStringEsc\<rparr>, scanContinue)
      else if (of_char c :: nat) < 0x20 then scanner_error s
      else (s, scanContinue))"

definition stateInStringEsc :: "scanner \<Rightarrow> char \<Rightarrow> scanner \<times> scan_code" where
  "stateInStringEsc s c =
     (if c \<in> set ''bfnrt/'' \<or> c = CHR 0x5C \<or> c = CHR 0x22 then
        (s\<lparr>step := StateInString\<rparr>, scanContinue)
      else if c = CHR ''u'' then (s\<lparr>step := StateInStringEscU\<rparr>, scanContinue)
      else scanner_error s)"

definition expect :: "bool \<Rightarrow> step_fn \<Rightarrow> scanner \<Rightarrow> scanner \<times> scan_code" where
  "expect ok next s = (if ok then (s\<lparr>step := next\<rparr>, scanContinue) else scanner_error s)"

definition state0 :: "scanner \<Rightarrow> char \<Rightarrow> scanner \<times> scan_code" where
  "state0 s c =
     (if c = CHR ''.'' then (s\<lparr>step := StateDot\<rparr>, scanContinue)
      else if c = CHR ''e'' \<or> c = CHR ''E'' then (s\<lparr>step := StateE\<rparr>, scanContinue)
      else stateEndValue s c)"

definition state1 :: "scanner \<Rightarrow> char \<Rightarrow> scanner \<times> scan_code" where
  "state1 s c = (if isDigit c then (s\<lparr>step := State1\<rparr>, scanContinue) else state0 s c)"

definition stateNeg :: "scanner \<Rightarrow> char \<Rightarrow> scanner \<times> scan_code" where
  "stateNeg s c =
     (if c = CHR ''0'' then (s\<lparr>step := State0\<rparr>, scanContinue)
      else if isDigit19 c then (s\<lparr>step := State1\<rparr>, scanContinue)
      else scanner_error s)"

definition stateDot0 :: "scanner \<Rightarrow> char \<Rightarrow> scanner \<times> scan_code" where
  "stateDot0 s c =
     (if isDigit c then (s, scanContinue)
      else if c = CHR ''e'' \<or> c = CHR ''E'' then (s\<lparr>step := StateE\<rparr>, scanContinue)
      else stateEndValue s c)"

definition stateESign :: "scanner \<Rightarrow> char \<Rightarrow> scanner \<times> scan_code" where
  "stateESign s c = expect (isDigit c) StateE0 s"

definition stateE :: "scanner \<Rightarrow> char \<Rightarrow> scanner \<times> scan_code" where
  "stateE s c =
     (if c = CHR ''+'' \<or> c = CHR ''-'' then (s\<lparr>step := StateESign\<rparr>, scanContinue)
      else stateESign s c)"

definition stateE0 :: "scanner \<Rightarrow> char \<Rightarrow> scanner \<times> scan_code" where
  "stateE0 s c = (if isDigit c then (s, scanContinue) else stateEndValue s c)"

definition scannerStep :: "scanner \<Rightarrow> char \<Rightarrow> scanner \<times> scan_code" where
  "scannerStep s c =
     (case step s of
        StateBeginValueOrEmpty \<Rightarrow> stateBeginValueOrEmpty s c
      | StateBeginValue \<Rightarrow> stateBeginValue s c
      | StateBeginStringOrEmpty \<Rightarrow> stateBeginStringOrEmpty s c
      | StateBeginString \<Rightarrow> stateBeginString s c
      | StateEndValue \<Rightarrow> stateEndValue s c
      | StateEndTop \<Rightarrow> stateEndTop s c
      | StateInString \<Rightarrow> stateInString s c
      | StateInStringEsc \<Rightarrow> stateInStringEsc s c
      | StateInStringEscU \<Rightarrow> expect (isHex c) StateInStringEscU1 s
      | StateInStringEscU1 \<Rightarrow> expect (isHex c) StateInStringEscU12 s
      | StateInStringEscU12 \<Rightarrow> expect (isHex c) StateInStringEscU123 s
      | StateInStringEscU123 \<Rightarrow> expect (isHex c) StateInString s
      | StateNeg \<Rightarrow> stateNeg s c
      | State1 \<Rightarrow> state1 s c
      | State0 \<Rightarrow> state0 s c
      | StateDot \<Rightarrow> expect (isDigit c) StateDot0 s
      | StateDot0 \<Rightarrow> stateDot0 s c
      | StateE \<Rightarrow> stateE s c
      | StateESign \<Rightarrow> stateESign s c
      | StateE0 \<Rightarrow> stateE0 s c
      | StateT \<Rightarrow> expect (c = CHR ''r'') StateTr s
      | StateTr \<Rightarrow> expect (c = CHR ''u'') StateTru s
      | StateTru \<Rightarrow> expect (c = CHR ''e'') StateEndValue s
      | StateF \<Rightarrow> expect (c = CHR ''a'') StateFa s
      | StateFa \<Rightarrow> expect (c = CHR ''l'') StateFal s
      | StateFal \<Rightarrow> expect (c = CHR ''s'') StateFals s
      | StateFals \<Rightarrow> expect (c = CHR ''e'') StateEndValue s
      | StateN \<Rightarrow> expect (c = CHR ''u'') StateNu s
      | StateNu \<Rightarrow> expect (c = CHR ''l'') StateNul s
      | StateNul \<Rightarrow> expect (c = CHR ''l'') StateEndValue s
      | StateError \<Rightarrow> (s, scanError))"

text \<open>
  The loop of \<open>Decoder.readValue\<close> over the bytes that are buffered: the index at which
  the value ends, a syntax error, or the end of the bytes with the scanner's state there.
  A closing bracket or brace ends a top-level value at once (the loop offers the scanner
  a space to find out); any other value ends at the first byte that does not belong to it.
\<close>

datatype scan_result = ValueEnd nat | ScanFailed | Exhausted scanner

fun scanValue :: "scanner \<Rightarrow> string \<Rightarrow> nat \<Rightarrow> scan_result" where
  "scanValue s [] scanp = Exhausted s"
| "scanValue s (c # cs) scanp =
     (case scannerStep s c of
        (s', scanEnd) \<Rightarrow> ValueEnd scanp
      | (s', scanEndObject) \<Rightarrow>
          (case stateEndValue s' (CHR '' '') of
             (s'', code) \<Rightarrow>
               if code = scanEnd then ValueEnd (Suc scanp) else scanValue s'' cs (Suc scanp))
      | (s', scanEndArray) \<Rightarrow>
          (case stateEndValue s' (CHR '' '') of
             (s'', code) \<Rightarrow>
               if code = scanEnd then ValueEnd (Suc scanp) else scanValue s'' cs (Suc scanp))
      | (s', scanError) \<Rightarrow> ScanFailed
      | (s', other) \<Rightarrow> scanValue s' cs (Suc scanp))"

definition nonSpace :: "string \<Rightarrow> bool" where
  "nonSpace b = (\<exists>c \<in> set b. \<not> isSpace c)"

text \<open>
  \<open>Decoder.readValue\<close>: at the end of the input the scanner is offered a space; a value
  it then takes for complete (a number) is returned, otherwise the end is unexpected
  when a byte other than white space has been read, and the plain end of input when not.
\<close>

datatype read_result = ReadValue nat | ReadSyntaxError | ReadUnexpectedEOF | ReadEOF

definition readValue :: "string \<Rightarrow> read_result" where
  "readValue buf =
     (case scanValue scanner_reset buf 0 of
        ValueEnd n \<Rightarrow> ReadValue n
      | ScanFailed \<Rightarrow> ReadSyntaxError
      | Exhausted s \<Rightarrow>
          if snd (scannerStep s (CHR '' '')) = scanEnd then ReadValue (length buf)
          else if nonSpace buf then ReadUnexpectedEOF
          else ReadEOF)"

text \<open>
  \<open>Decoder.Decode\<close> into a \<open>json.RawMessage\<close> on the input \<open>buf\<close>: the document, which is
  the value's bytes without the white space in front of it, and the input that is left.
\<close>

datatype decode_result = Decoded string string | DecodeSyntaxError | DecodeUnexpectedEOF | DecodeEOF

definition Decode :: "string \<Rightarrow> decode_result" where
  "Decode buf =
     (case readValue buf of
        ReadValue n \<Rightarrow> Decoded (dropWhile isSpace (take n buf)) (drop n buf)
      | ReadSyntaxError \<Rightarrow> DecodeSyntaxError
      | ReadUnexpectedEOF \<Rightarrow> DecodeUnexpectedEOF
      | ReadEOF \<Rightarrow> DecodeEOF)"


lemma stateBeginValue_not_end: "snd (stateBeginValue s c) \<noteq> scanEnd"
  by (simp add: stateBeginValue_def pushParseState_def Let_def scanner_error_def)

lemma scanValue_le: "scanValue s cs n = ValueEnd m \<Longrightarrow> n \<le> m \<and> m \<le> n + length cs"
proof (induction cs arbitrary: s n)
  case Nil
  then show ?case by simp
next
  case (Cons c cs)
  obtain s' code where st: "scannerStep s c = (s', code)" by (cases "scannerStep s c")
  obtain s'' code' where ev: "stateEndValue s' (CHR '' '') = (s'', code')"
    by (cases "stateEndValue s' (CHR '' '')")
  from Cons.prems st ev show ?case
    by (cases code) (auto split: if_splits dest!: Cons.IH)
qed

lemma scanValue_reset_pos:
  assumes "scanValue scanner_reset cs 0 = ValueEnd m"
  shows "0 < m"
proof (cases cs)
  case Nil
  with assms show ?thesis by simp
next
  case (Cons c cs')
  obtain s' code where st: "scannerStep scanner_reset c = (s', code)"
    by (cases "scannerStep scanner_reset c")
  then have ne: "code \<noteq> scanEnd"
    using stateBeginValue_not_end [of scanner_reset c]
    by (auto simp: scannerStep_def scanner_reset_def)
  obtain s'' code' where ev: "stateEndValue s' (CHR '' '') = (s'', code')"
    by (cases "stateEndValue s' (CHR '' '')")
  from assms Cons st ev ne show ?thesis
    by (cases code) (auto split: if_splits dest!: scanValue_le)
qed

lemma readValue_pos: "readValue buf = ReadValue n \<Longrightarrow> 0 < n \<and> n \<le> length buf"
proof -
  assume r: "readValue buf = ReadValue n"
  show ?thesis
  proof (cases "scanValue scanner_reset buf 0")
    case (ValueEnd m)
    with r scanValue_reset_pos [of buf m] scanValue_le [of scanner_reset buf 0 m] show ?thesis
      by (simp add: readValue_def)
  next
    case ScanFailed
    with r show ?thesis by (simp add: readValue_def)
  next
    case (Exhausted s)
    show ?thesis
    proof (cases buf)
      case Nil
      with Exhausted r show ?thesis
        by (auto simp: readValue_def scannerStep_def scanner_reset_def stateBeginValue_def pushParseState_def Let_def
            isSpace_def nonSpace_def split: if_splits)
    next
      case (Cons c cs)
      with Exhausted r show ?thesis by (auto simp: readValue_def split: if_splits)
    qed
  qed
qed

lemma Decode_shorter [termination_simp]:
  "Decode buf = Decoded doc rest \<Longrightarrow> length rest < length buf"
  by (auto simp: Decode_def split: read_result.splits dest!: readValue_pos)

section \<open>The orchestrators (enqueue.go)\<close>

text \<open>The chunk size files are read with (\<open>_fileBuffer\<close>, line 44).\<close>

definition fileBuffer :: nat where
  "fileBuffer = 32 * 1024 * 1024"

text \<open>The list of documents of the pending batch (lines 223-245).\<close>

record jsonBuffer =
  BatchSize :: int
  messageList_json :: "string list"

definition Add :: "jsonBuffer \<Rightarrow> string \<Rightarrow> jsonBuffer" where
  "Add j jsonMessage = j\<lparr>messageList_json := messageList_json j @ [jsonMessage]\<rparr>"

definition Clear :: "jsonBuffer \<Rightarrow> jsonBuffer" where
  "Clear j = j\<lparr>messageList_json := []\<rparr>"

definition Length :: "jsonBuffer \<Rightarrow> int" where
  "Length j = int (length (messageList_json j))"

text \<open>
  What the orchestrators take from outside the three source files: the queue client
  (\<open>config.AWS\<close>), the identities drawn by \<open>randomID\<close> (the \<open>n\<close>-th draw of a run) and by
  \<open>k8s.RandomName\<close>, the result of the liveness update made on entry, the result of
  \<open>json.Marshal\<close> on an item slice, on a path list and on a list of raw documents (\<open>None\<close>
  when it returns an error), and the chunks in which the blob store delivers a file.
  Writing to the job's log has no effect on the queue or on the results and is left out,
  as is the periodic liveness update, which runs beside the enqueue.
\<close>

record 'item env =
  AWS :: awsClient
  randomID :: "nat \<Rightarrow> string"
  RandomName :: string
  livenessResult :: "error option"
  marshalItems :: "'item list \<Rightarrow> string option"
  marshalPaths :: "string list \<Rightarrow> string option"
  marshalDocs :: "string list \<Rightarrow> string option"
  S3FileChunks :: "string \<Rightarrow> string \<Rightarrow> string list"

record Job =
  SQSUrl :: string

text \<open>addJSONObjectsToQueue (lines 335-347); \<open>n\<close> counts the identities drawn so far.\<close>

definition addJSONObjectsToQueue ::
  "'item env \<Rightarrow> SQSBatchUploader \<Rightarrow> world \<Rightarrow> nat \<Rightarrow> jsonBuffer
     \<Rightarrow> SQSBatchUploader \<times> world \<times> nat \<times> error option outcome" where
  "addJSONObjectsToQueue env uploader w n jsonMessageList =
     (case marshalDocs env (messageList_json jsonMessageList) of
        None \<Rightarrow> (uploader, w, n, Returns (Some MarshalError))
      | Some jsonBytes \<Rightarrow>
          (case AddToBatch uploader w (randomID env n) jsonBytes of
             (u', w', r) \<Rightarrow> (u', w', Suc n, r)))"

text \<open>
  The variables shared by the callbacks of enqueueS3FileContents: the uploader, the
  requests made to the queue so far, the number of identities drawn, the byte buffer, the
  list of documents of the pending batch and the index of the next document of the file.
\<close>

record ingest =
  ing_uploader :: SQSBatchUploader
  ing_sqs :: world
  ing_drawn :: nat
  bytesBuffer :: string
  jsonMessageList :: jsonBuffer
  itemIndex :: int

text \<open>
  The loop of streamJSONToQueue (lines 300-330) on the bytes \<open>dec\<close> the decoder has not
  consumed yet.  The decoder reads from \<open>bytesBuffer\<close> and so empties it: at the end of the
  input the buffer is empty, and at an unexpected end it is refilled with the bytes the
  decoder holds (lines 307-308), which are the ones behind the last document returned.
  When the loop returns any other error the file's iteration is abandoned and the buffer
  is not read again; it is left as it was here.
\<close>

function decodeLoop :: "'item env \<Rightarrow> ingest \<Rightarrow> string \<Rightarrow> ingest \<times> error option outcome" where
  "decodeLoop env st dec =
     (case Decode dec of
        DecodeEOF \<Rightarrow> (st\<lparr>bytesBuffer := []\<rparr>, Returns None)
      | DecodeUnexpectedEOF \<Rightarrow> (st\<lparr>bytesBuffer := dec\<rparr>, Returns (Some ErrUnexpectedEOF))
      | DecodeSyntaxError \<Rightarrow> (st, Returns (Some SyntaxError))
      | Decoded doc rest \<Rightarrow>
          if int (length doc) > messageSizeLimit then
            (st,
             Returns (Some (Wrap (ErrorMessageExceedsMaxSize (int (length doc)) messageSizeLimit)
                              (ItemCtx (itemIndex st)))))
          else
            let st1 = st\<lparr>itemIndex := itemIndex st + 1,
                          jsonMessageList := Add (jsonMessageList st) doc\<rparr>
            in
            if Length (jsonMessageList st1) = BatchSize (jsonMessageList st1) then
              (case addJSONObjectsToQueue env (ing_uploader st1) (ing_sqs st1) (ing_drawn st1)
                      (jsonMessageList st1) of
                 (u', w', n', Returns None) \<Rightarrow>
                   decodeLoop env
                     (st1\<lparr>ing_uploader := u', ing_sqs := w', ing_drawn := n',
                          jsonMessageList := Clear (jsonMessageList st1)\<rparr>) rest
               | (u', w', n', Returns (Some err)) \<Rightarrow>
                   (st1\<lparr>ing_uploader := u', ing_sqs := w', ing_drawn := n'\<rparr>, Returns (Some err))
               | (u', w', n', Panics p) \<Rightarrow>
                   (st1\<lparr>ing_uploader := u', ing_sqs := w', ing_drawn := n'\<rparr>, Panics p))
            else decodeLoop env st1 rest)"
  by pat_completeness auto
termination
  by (relation "measure (\<lambda>(env, st, dec). length dec)") (auto dest: Decode_shorter)

definition streamJSONToQueue :: "'item env \<Rightarrow> ingest \<Rightarrow> ingest \<times> error option outcome" where
  "streamJSONToQueue env st = decodeLoop env st (bytesBuffer st)"

text \<open>
  The callback given to S3FileIterator (lines 261-273), for a chunk that was read in full:
  the chunk is appended to the buffer and decoded.
\<close>

definition chunkCallback ::
  "'item env \<Rightarrow> ingest \<Rightarrow> string \<Rightarrow> bool \<Rightarrow> ingest \<times> (bool \<times> error option) outcome" where
  "chunkCallback env st chunk isLastChunk =
     (case streamJSONToQueue env (st\<lparr>bytesBuffer := bytesBuffer st @ chunk\<rparr>) of
        (st', Panics p) \<Rightarrow> (st', Panics p)
      | (st', Returns None) \<Rightarrow> (st', Returns (True, None))
      | (st', Returns (Some err)) \<Rightarrow>
          if err \<noteq> ErrUnexpectedEOF \<or> (err = ErrUnexpectedEOF \<and> isLastChunk)
          then (st', Returns (False, Some err))
          else (st', Returns (True, None)))"

text \<open>
  Modelled from the spec: \<open>S3FileIterator\<close> of the repository's \<open>pkg/lib/aws\<close> (not among
  the sources), the blob store's \<open>ReadObjectChunks(object, chunkSize)\<close>, a "lazy sequence
  of (bytes, isLastChunk)": the callback is given the chunks in order, the last one with
  \<open>isLastChunk\<close> set, until it returns an error or asks to stop.
\<close>

fun S3FileIterator ::
  "('st \<Rightarrow> string \<Rightarrow> bool \<Rightarrow> 'st \<times> (bool \<times> error option) outcome) \<Rightarrow> 'st \<Rightarrow> string list
     \<Rightarrow> 'st \<times> error option outcome" where
  "S3FileIterator fn st [] = (st, Returns None)"
| "S3FileIterator fn st (chunk # chunks) =
     (case fn st chunk (chunks = []) of
        (st', Panics p) \<Rightarrow> (st', Panics p)
      | (st', Returns (shouldContinue, Some err)) \<Rightarrow> (st', Returns (Some err))
      | (st', Returns (shouldContinue, None)) \<Rightarrow>
          if shouldContinue then S3FileIterator fn st' chunks else (st', Returns None))"


text \<open>
  Modelled from the spec: \<open>s3IteratorFromLister\<close> (of the package, not among the sources),
  the blob store's \<open>ListObjects\<close>, a "lazy sequence of object references" that "supports
  early termination by the orchestrator returning stop from its visitor": the callback
  is given the objects (bucket and key) in order until it returns an error or asks to
  stop; an error of the listing itself is returned once the objects listed are visited.
\<close>

fun s3IteratorFromLister ::
  "(string \<times> string) list \<times> error option
     \<Rightarrow> ('st \<Rightarrow> string \<Rightarrow> string \<Rightarrow> 'st \<times> (bool \<times> error option) outcome) \<Rightarrow> 'st
     \<Rightarrow> 'st \<times> error option outcome" where
  "s3IteratorFromLister ([], listErr) fn st = (st, Returns listErr)"
| "s3IteratorFromLister ((bucket, key) # objs, listErr) fn st =
     (case fn st bucket key of
        (st', Panics p) \<Rightarrow> (st', Panics p)
      | (st', Returns (shouldContinue, Some err)) \<Rightarrow> (st', Returns (Some err))
      | (st', Returns (shouldContinue, None)) \<Rightarrow>
          if shouldContinue then s3IteratorFromLister (objs, listErr) fn st'
          else (st', Returns None))"

text \<open>
  Modelled from the spec: \<open>awslib.S3Path\<close> (not among the sources), the path by which a
  file is named in the error returned for it and in the batches of the path lister.
\<close>

definition S3Path :: "string \<Rightarrow> string \<Rightarrow> string" where
  "S3Path bucket key = ''s3://'' @ bucket @ ''/'' @ key"

text \<open>The callback given to s3IteratorFromLister (lines 256-279).\<close>

definition fileCallback ::
  "'item env \<Rightarrow> ingest \<Rightarrow> string \<Rightarrow> string \<Rightarrow> ingest \<times> (bool \<times> error option) outcome" where
  "fileCallback env st bucket key =
     (let s3Path = S3Path bucket key in
      case S3FileIterator (chunkCallback env) (st\<lparr>itemIndex := 0\<rparr>) (S3FileChunks env bucket key) of
        (st', Panics p) \<Rightarrow> (st', Panics p)
      | (st', Returns (Some err)) \<Rightarrow> (st', Returns (False, Some (Wrap err (PathCtx s3Path))))
      | (st', Returns None) \<Rightarrow> (st', Returns (True, None)))"

text \<open>
  enqueueS3FileContents (lines 247-296).  \<open>newJSONBuffer\<close> makes a slice of capacity
  \<open>BatchSize\<close>, which faults when it is negative.  The orchestrator is first given with the
  uploader it starts from as a parameter, then with the uploader it builds (lines 249-253).
\<close>

record DelimitedFiles =
  S3Lister_files :: "(string \<times> string) list \<times> error option"
  BatchSize_files :: int

definition enqueueS3FileContentsFrom ::
  "'item env \<Rightarrow> SQSBatchUploader \<Rightarrow> DelimitedFiles \<Rightarrow> world \<Rightarrow> nat
     \<Rightarrow> world \<times> nat \<times> (int \<times> error option) outcome" where
  "enqueueS3FileContentsFrom env uploader0 delimitedFiles w n =
     (if BatchSize_files delimitedFiles < 0 then (w, n, Panics MakeSliceCapOutOfRange)
      else
        case s3IteratorFromLister (S3Lister_files delimitedFiles) (fileCallback env)
               \<lparr>ing_uploader = uploader0, ing_sqs = w, ing_drawn = n, bytesBuffer = [],
                jsonMessageList =
                  \<lparr>BatchSize = BatchSize_files delimitedFiles, messageList_json = []\<rparr>,
                itemIndex = 0\<rparr> of
          (st, Panics p) \<Rightarrow> (ing_sqs st, ing_drawn st, Panics p)
        | (st, Returns (Some err)) \<Rightarrow> (ing_sqs st, ing_drawn st, Returns (0, Some err))
        | (st, Returns None) \<Rightarrow>
            (case (if Length (jsonMessageList st) \<noteq> 0
                   then addJSONObjectsToQueue env (ing_uploader st) (ing_sqs st) (ing_drawn st)
                          (jsonMessageList st)
                   else (ing_uploader st, ing_sqs st, ing_drawn st, Returns None)) of
               (u1, w1, n1, Panics p) \<Rightarrow> (w1, n1, Panics p)
             | (u1, w1, n1, Returns (Some err)) \<Rightarrow> (w1, n1, Returns (0, Some err))
             | (u1, w1, n1, Returns None) \<Rightarrow>
                 (case Flush u1 w1 of
                    (u2, w2, Some err) \<Rightarrow> (w2, n1, Returns (0, Some err))
                  | (u2, w2, None) \<Rightarrow> (w2, n1, Returns (TotalBatches u2, None)))))"

definition enqueueS3FileContents ::
  "'item env \<Rightarrow> Job \<Rightarrow> DelimitedFiles \<Rightarrow> world \<Rightarrow> nat
     \<Rightarrow> world \<times> nat \<times> (int \<times> error option) outcome" where
  "enqueueS3FileContents env jobSpec delimitedFiles w n =
     enqueueS3FileContentsFrom env (newUploader (AWS env) (SQSUrl jobSpec)) delimitedFiles w n"

subsection \<open>The path lister\<close>

record FilePathLister =
  S3Lister_paths :: "(string \<times> string) list \<times> error option"
  BatchSize_paths :: int

text \<open>addS3PathsToQueue (lines 210-221).\<close>

definition addS3PathsToQueue ::
  "'item env \<Rightarrow> SQSBatchUploader \<Rightarrow> world \<Rightarrow> nat \<Rightarrow> string list
     \<Rightarrow> SQSBatchUploader \<times> world \<times> nat \<times> error option outcome" where
  "addS3PathsToQueue env uploader w n s3PathList =
     (case marshalPaths env s3PathList of
        None \<Rightarrow> (uploader, w, n, Returns (Some (Wrap MarshalError (BatchCtx (TotalBatches uploader)))))
      | Some jsonBytes \<Rightarrow>
          (case AddToBatch uploader w (randomID env n) jsonBytes of
             (u', w', r) \<Rightarrow> (u', w', Suc n, r)))"

text \<open>
  The variables shared by the callback of enqueueS3Paths: the path list, the uploader,
  the requests made to the queue so far and the number of identities drawn.
\<close>

record path_ingest =
  s3PathList :: "string list"
  uploader_p :: SQSBatchUploader
  sqs_p :: world
  drawn_p :: nat

text \<open>The callback given to s3IteratorFromLister (lines 173-190).\<close>

definition pathCallback ::
  "'item env \<Rightarrow> int \<Rightarrow> path_ingest \<Rightarrow> string \<Rightarrow> string
     \<Rightarrow> path_ingest \<times> (bool \<times> error option) outcome" where
  "pathCallback env batchSize st bucket key =
     (let s3Path = S3Path bucket key;
          st1 = st\<lparr>s3PathList := s3PathList st @ [s3Path]\<rparr>
      in
      if int (length (s3PathList st1)) = batchSize then
        (case addS3PathsToQueue env (uploader_p st1) (sqs_p st1) (drawn_p st1) (s3PathList st1) of
           (u', w', n', Panics p) \<Rightarrow>
             (st1\<lparr>uploader_p := u', sqs_p := w', drawn_p := n'\<rparr>, Panics p)
         | (u', w', n', Returns (Some err)) \<Rightarrow>
             (st1\<lparr>uploader_p := u', sqs_p := w', drawn_p := n'\<rparr>, Returns (False, Some err))
         | (u', w', n', Returns None) \<Rightarrow>
             (st1\<lparr>uploader_p := u', sqs_p := w', drawn_p := n', s3PathList := []\<rparr>,
              Returns (True, None)))
      else (st1, Returns (True, None)))"

text \<open>enqueueS3Paths (lines 165-208).\<close>

definition enqueueS3PathsFrom ::
  "'item env \<Rightarrow> SQSBatchUploader \<Rightarrow> FilePathLister \<Rightarrow> world \<Rightarrow> nat
     \<Rightarrow> world \<times> nat \<times> (int \<times> error option) outcome" where
  "enqueueS3PathsFrom env uploader0 s3PathsLister w n =
     (case s3IteratorFromLister (S3Lister_paths s3PathsLister)
             (pathCallback env (BatchSize_paths s3PathsLister))
             \<lparr>s3PathList = [], uploader_p = uploader0, sqs_p = w, drawn_p = n\<rparr> of
        (st, Panics p) \<Rightarrow> (sqs_p st, drawn_p st, Panics p)
      | (st, Returns (Some err)) \<Rightarrow> (sqs_p st, drawn_p st, Returns (0, Some err))
      | (st, Returns None) \<Rightarrow>
          (case (if length (s3PathList st) > 0
                 then addS3PathsToQueue env (uploader_p st) (sqs_p st) (drawn_p st) (s3PathList st)
                 else (uploader_p st, sqs_p st, drawn_p st, Returns None)) of
             (u1, w1, n1, Panics p) \<Rightarrow> (w1, n1, Panics p)
           | (u1, w1, n1, Returns (Some err)) \<Rightarrow> (w1, n1, Returns (0, Some err))
           | (u1, w1, n1, Returns None) \<Rightarrow>
               (case Flush u1 w1 of
                  (u2, w2, Some err) \<Rightarrow> (w2, n1, Returns (0, Some err))
                | (u2, w2, None) \<Rightarrow> (w2, n1, Returns (TotalBatches u2, None)))))"

definition enqueueS3Paths ::
  "'item env \<Rightarrow> Job \<Rightarrow> FilePathLister \<Rightarrow> world \<Rightarrow> nat
     \<Rightarrow> world \<times> nat \<times> (int \<times> error option) outcome" where
  "enqueueS3Paths env jobSpec s3PathsLister w n =
     enqueueS3PathsFrom env (newUploader (AWS env) (SQSUrl jobSpec)) s3PathsLister w n"

subsection \<open>The item list\<close>

text \<open>Go's integer division truncates towards zero; \<open>%\<close> is its remainder.\<close>

definition go_div :: "int \<Rightarrow> int \<Rightarrow> int" where
  "go_div a b = sgn a * sgn b * (\<bar>a\<bar> div \<bar>b\<bar>)"

definition go_mod :: "int \<Rightarrow> int \<Rightarrow> int" where
  "go_mod a b = a - b * go_div a b"

record 'item ItemList =
  Items :: "'item list"
  BatchSize_items :: int

text \<open>Lines 120-123.\<close>

definition itemBatchCount :: "int \<Rightarrow> int \<Rightarrow> int" where
  "itemBatchCount len batchSize =
     (if go_mod len batchSize \<noteq> 0 then go_div len batchSize + 1 else go_div len batchSize)"

text \<open>Lines 134-138: the bounds of slice \<open>i\<close>.\<close>

definition sliceMin :: "int \<Rightarrow> int \<Rightarrow> int" where
  "sliceMin batchSize i = i * batchSize"

definition sliceMax :: "int \<Rightarrow> int \<Rightarrow> int \<Rightarrow> int" where
  "sliceMax len batchSize i = (if (i + 1) * batchSize > len then len else (i + 1) * batchSize)"

text \<open>A Go slice expression \<open>s[lo:hi]\<close> with \<open>hi\<close> at most \<open>len(s)\<close>.\<close>

definition goSlice :: "'a list \<Rightarrow> int \<Rightarrow> int \<Rightarrow> 'a list option" where
  "goSlice xs lo hi =
     (if 0 \<le> lo \<and> lo \<le> hi \<and> hi \<le> int (length xs)
      then Some (take (nat (hi - lo)) (drop (nat lo) xs)) else None)"

text \<open>
  The loop of enqueueItems (lines 133-155) from batch number \<open>i\<close>.  A slice expression out
  of range faults.
\<close>

function enqueueItemsLoop ::
  "'item env \<Rightarrow> 'item ItemList \<Rightarrow> int \<Rightarrow> int \<Rightarrow> SQSBatchUploader \<Rightarrow> world \<Rightarrow> nat
     \<Rightarrow> SQSBatchUploader \<times> world \<times> nat \<times> error option outcome" where
  "enqueueItemsLoop env itemList batchCount i uploader w n =
     (if i < batchCount then
        let min = sliceMin (BatchSize_items itemList) i;
            max = sliceMax (int (length (Items itemList))) (BatchSize_items itemList) i
        in
        (case goSlice (Items itemList) min max of
           None \<Rightarrow> (uploader, w, n, Panics SliceBoundsOutOfRange)
         | Some items \<Rightarrow>
             (case marshalItems env items of
                None \<Rightarrow> (uploader, w, n, Returns (Some (Wrap MarshalError (BatchCtx i))))
              | Some jsonBytes \<Rightarrow>
                  (case AddToBatch uploader w (randomID env n) jsonBytes of
                     (u', w', Panics p) \<Rightarrow> (u', w', Suc n, Panics p)
                   | (u', w', Returns (Some err)) \<Rightarrow>
                       (u', w', Suc n,
                        Returns (Some (if BatchSize_items itemList > 1 then Wrap err (ItemCtx i)
                                       else Wrap err (ItemsBetweenCtx min max))))
                   | (u', w', Returns None) \<Rightarrow>
                       enqueueItemsLoop env itemList batchCount (i + 1) u' w' (Suc n))))
      else (uploader, w, n, Returns None))"
  by pat_completeness auto
termination
  by (relation "measure (\<lambda>(env, itemList, batchCount, i, uploader, w, n). nat (batchCount - i))") auto

text \<open>
  enqueueItems (lines 119-163); line 120 faults when the batch size is zero.  As above,
  first from a given uploader, then from the one the orchestrator builds (lines 127-131).
\<close>

definition enqueueItemsFrom ::
  "'item env \<Rightarrow> SQSBatchUploader \<Rightarrow> 'item ItemList \<Rightarrow> world \<Rightarrow> nat
     \<Rightarrow> world \<times> nat \<times> (int \<times> error option) outcome" where
  "enqueueItemsFrom env uploader0 itemList w n =
     (if BatchSize_items itemList = 0 then (w, n, Panics IntegerDivideByZero)
      else
        let batchCount = itemBatchCount (int (length (Items itemList))) (BatchSize_items itemList) in
        case enqueueItemsLoop env itemList batchCount 0 uploader0 w n of
          (u1, w1, n1, Panics p) \<Rightarrow> (w1, n1, Panics p)
        | (u1, w1, n1, Returns (Some err)) \<Rightarrow> (w1, n1, Returns (0, Some err))
        | (u1, w1, n1, Returns None) \<Rightarrow>
            (case Flush u1 w1 of
               (u2, w2, Some err) \<Rightarrow> (w2, n1, Returns (0, Some err))
             | (u2, w2, None) \<Rightarrow> (w2, n1, Returns (TotalBatches u2, None))))"

definition enqueueItems ::
  "'item env \<Rightarrow> Job \<Rightarrow> 'item ItemList \<Rightarrow> world \<Rightarrow> nat
     \<Rightarrow> world \<times> nat \<times> (int \<times> error option) outcome" where
  "enqueueItems env jobSpec itemList w n =
     enqueueItemsFrom env (newUploader (AWS env) (SQSUrl jobSpec)) itemList w n"

subsection \<open>The enqueue driver\<close>

text \<open>
  enqueue (lines 68-117): the orchestrator of the first input kind that is present, then
  the \<open>job_complete\<close> message.
\<close>

record 'item JobSubmission =
  ItemList :: "'item ItemList option"
  FilePathLister :: "FilePathLister option"
  DelimitedFiles :: "DelimitedFiles option"

definition selectedOrchestrator ::
  "'item env \<Rightarrow> Job \<Rightarrow> 'item JobSubmission \<Rightarrow> world \<Rightarrow> nat
     \<Rightarrow> world \<times> nat \<times> (int \<times> error option) outcome" where
  "selectedOrchestrator env jobSpec submission w n =
     (case ItemList submission of
        Some itemList \<Rightarrow> enqueueItems env jobSpec itemList w n
      | None \<Rightarrow>
          (case FilePathLister submission of
             Some lister \<Rightarrow> enqueueS3Paths env jobSpec lister w n
           | None \<Rightarrow>
               (case DelimitedFiles submission of
                  Some files \<Rightarrow> enqueueS3FileContents env jobSpec files w n
                | None \<Rightarrow> (w, n, Returns (0, None)))))"

definition jobCompleteMessage :: "'item env \<Rightarrow> Job \<Rightarrow> SendMessageInput" where
  "jobCompleteMessage env jobSpec =
     \<lparr>InputQueueUrl = SQSUrl jobSpec,
      InputMessageBody = [CHR 0x22] @ ''job_complete'' @ [CHR 0x22],
      InputMessageDeduplicationId = RandomName env,
      InputMessageGroupId = RandomName env,
      InputMessageAttributes = [(''job_complete'', ''String'', ''true'')]\<rparr>"

definition enqueue ::
  "'item env \<Rightarrow> Job \<Rightarrow> 'item JobSubmission \<Rightarrow> world \<Rightarrow> nat
     \<Rightarrow> world \<times> nat \<times> (int \<times> error option) outcome" where
  "enqueue env jobSpec submission w n =
     (case livenessResult env of
        Some err \<Rightarrow> (w, n, Returns (0, Some err))
      | None \<Rightarrow>
          (case selectedOrchestrator env jobSpec submission w n of
             (w1, n1, Panics p) \<Rightarrow> (w1, n1, Panics p)
           | (w1, n1, Returns (totalBatches, Some err)) \<Rightarrow> (w1, n1, Returns (0, Some err))
           | (w1, n1, Returns (totalBatches, None)) \<Rightarrow>
               (case SendMessage (AWS env) (length w1) (jobCompleteMessage env jobSpec) of
                  Some e \<Rightarrow>
                    (w1 @ [SendMessageCall (jobCompleteMessage env jobSpec) (Some e)], n1,
                     Returns (0, Some (Wrap (AwsError e) JobCompleteCtx)))
                | None \<Rightarrow>
                    (w1 @ [SendMessageCall (jobCompleteMessage env jobSpec) None], n1,
                     Returns (totalBatches, None)))))"

section \<open>Calling the uploader, and what is observed of it\<close>

text \<open>
  A client of the uploader makes a sequence of \<open>AddToBatch\<close> and \<open>Flush\<close> calls.  A call
  that panics ends the sequence.  The result holds the final uploader, the final world and
  the outcome of every call made.
\<close>

datatype uploader_call = CallAddToBatch string string | CallFlush

definition callUploader ::
  "SQSBatchUploader \<Rightarrow> world \<Rightarrow> uploader_call \<Rightarrow> SQSBatchUploader \<times> world \<times> error option outcome" where
  "callUploader u w c =
     (case c of
        CallAddToBatch ident body \<Rightarrow> AddToBatch u w ident body
      | CallFlush \<Rightarrow> (case Flush u w of (u', w', r) \<Rightarrow> (u', w', Returns r)))"

fun callsUploader ::
  "SQSBatchUploader \<Rightarrow> world \<Rightarrow> uploader_call list
     \<Rightarrow> SQSBatchUploader \<times> world \<times> error option outcome list" where
  "callsUploader u w [] = (u, w, [])"
| "callsUploader u w (c # cs) =
     (case callUploader u w c of
        (u', w', Panics p) \<Rightarrow> (u', w', [Panics p])
      | (u', w', Returns r) \<Rightarrow>
          (case callsUploader u' w' cs of (u'', w'', rs) \<Rightarrow> (u'', w'', Returns r # rs)))"

text \<open>The number of \<open>AddToBatch\<close> calls that returned \<open>nil\<close>.\<close>

fun addSucceeded :: "uploader_call \<times> error option outcome \<Rightarrow> bool" where
  "addSucceeded (CallAddToBatch ident body, Returns None) = True"
| "addSucceeded other = False"

definition succeededAdds :: "uploader_call list \<Rightarrow> error option outcome list \<Rightarrow> nat" where
  "succeededAdds cs rs = length (filter addSucceeded (zip cs rs))"

text \<open>The number of \<open>SendMessageBatch\<close> requests that returned no error.\<close>

fun sendSucceeded :: "sqs_call \<Rightarrow> bool" where
  "sendSucceeded (SendMessageBatchCall es out None) = True"
| "sendSucceeded other = False"

definition succeededSends :: "world \<Rightarrow> nat" where
  "succeededSends w = length (filter sendSucceeded w)"

text \<open>A request that sent exactly the entries \<open>es\<close>; one that also returned an error.\<close>

definition sendOf :: "SendMessageBatchRequestEntry list \<Rightarrow> sqs_call \<Rightarrow> bool" where
  "sendOf es c = (case c of SendMessageBatchCall es' out err \<Rightarrow> es' = es | SendMessageCall i err \<Rightarrow> False)"

definition failedSendOf :: "SendMessageBatchRequestEntry list \<Rightarrow> sqs_call \<Rightarrow> bool" where
  "failedSendOf es c = (case c of SendMessageBatchCall es' out err \<Rightarrow> es' = es \<and> err \<noteq> None | SendMessageCall i err \<Rightarrow> False)"

text \<open>The limits of one physical send: its payload bytes and its number of messages.\<close>

definition batchBytes :: "SendMessageBatchRequestEntry list \<Rightarrow> int" where
  "batchBytes es = sum_list (map (\<lambda>e. int (length (MessageBody e))) es)"

fun validSend :: "sqs_call \<Rightarrow> bool" where
  "validSend (SendMessageBatchCall es out err) =
     (batchBytes es \<le> messageSizeLimit \<and> int (length es) \<le> maxMessagesPerBatch)"
| "validSend (SendMessageCall i err) = True"

text \<open>
  A consistent uploader: the byte total is the sum over the pending messages, and the
  pending messages are within both limits.  The zero-value uploader is consistent.
\<close>

definition uploader_ok :: "SQSBatchUploader \<Rightarrow> bool" where
  "uploader_ok u =
     (totalBytes u = batchBytes (messageList u)
      \<and> batchBytes (messageList u) \<le> messageSizeLimit
      \<and> int (length (messageList u)) \<le> maxMessagesPerBatch)"

text \<open>
  With a retry count below 1 Flush sends nothing and clears nothing, so the pending list
  can outgrow the limits; it is then never sent.
\<close>

definition attempts_ok :: "SQSBatchUploader \<Rightarrow> bool" where
  "attempts_ok u = (0 < retriesOf u \<longrightarrow> uploader_ok u)"

text \<open>The uploader after a successful Flush (lines 85-87).\<close>

definition cleared :: "SQSBatchUploader \<Rightarrow> SQSBatchUploader" where
  "cleared u = u\<lparr>messageList := [], messageIDToListIndex := Some Map.empty, totalBytes := 0\<rparr>"

subsection \<open>Documents of a byte stream, and their emission\<close>

text \<open>What streamJSONToQueue does with one decoded document (lines 314-329).\<close>

definition emitDoc :: "'item env \<Rightarrow> ingest \<Rightarrow> string \<Rightarrow> ingest \<times> error option outcome option" where
  "emitDoc env st doc =
     (if int (length doc) > messageSizeLimit then
        (st, Some (Returns (Some (Wrap (ErrorMessageExceedsMaxSize (int (length doc)) messageSizeLimit)
                              (ItemCtx (itemIndex st))))))
      else
        let st1 = st\<lparr>itemIndex := itemIndex st + 1,
                      jsonMessageList := Add (jsonMessageList st) doc\<rparr>
        in
        if Length (jsonMessageList st1) = BatchSize (jsonMessageList st1) then
          (case addJSONObjectsToQueue env (ing_uploader st1) (ing_sqs st1) (ing_drawn st1)
                  (jsonMessageList st1) of
             (u', w', n', Returns None) \<Rightarrow>
               (st1\<lparr>ing_uploader := u', ing_sqs := w', ing_drawn := n',
                    jsonMessageList := Clear (jsonMessageList st1)\<rparr>, None)
           | (u', w', n', Returns (Some err)) \<Rightarrow>
               (st1\<lparr>ing_uploader := u', ing_sqs := w', ing_drawn := n'\<rparr>, Some (Returns (Some err)))
           | (u', w', n', Panics p) \<Rightarrow>
               (st1\<lparr>ing_uploader := u', ing_sqs := w', ing_drawn := n'\<rparr>, Some (Panics p)))
        else (st1, None))"

fun emitDocs :: "'item env \<Rightarrow> ingest \<Rightarrow> string list \<Rightarrow> ingest \<times> error option outcome option" where
  "emitDocs env st [] = (st, None)"
| "emitDocs env st (doc # docs) =
     (case emitDoc env st doc of
        (st', None) \<Rightarrow> emitDocs env st' docs
      | (st', Some r) \<Rightarrow> (st', Some r))"

datatype stream_end = EndOfInput | IncompleteDocument string | MalformedDocument

function decodeAll :: "string \<Rightarrow> string list \<times> stream_end" where
  "decodeAll dec =
     (case Decode dec of
        Decoded doc rest \<Rightarrow> (case decodeAll rest of (docs, e) \<Rightarrow> (doc # docs, e))
      | DecodeEOF \<Rightarrow> ([], EndOfInput)
      | DecodeUnexpectedEOF \<Rightarrow> ([], IncompleteDocument dec)
      | DecodeSyntaxError \<Rightarrow> ([], MalformedDocument))"
  by pat_completeness auto
termination
  by (relation "measure length") (auto dest: Decode_shorter)

text \<open>The result of the loop once the documents are emitted.\<close>

definition streamResult :: "ingest \<times> error option outcome option \<Rightarrow> stream_end \<Rightarrow> ingest \<times> error option outcome" where
  "streamResult emitted e =
     (case emitted of
        (st, Some r) \<Rightarrow> (st, r)
      | (st, None) \<Rightarrow>
          (case e of
             EndOfInput \<Rightarrow> (st\<lparr>bytesBuffer := []\<rparr>, Returns None)
           | IncompleteDocument tail \<Rightarrow> (st\<lparr>bytesBuffer := tail\<rparr>, Returns (Some ErrUnexpectedEOF))
           | MalformedDocument \<Rightarrow> (st, Returns (Some SyntaxError))))"

subsection \<open>Where the scanner stands at the top level\<close>

definition spaces :: "string \<Rightarrow> bool" where
  "spaces x = list_all isSpace x"

definition numStart :: "char \<Rightarrow> bool" where
  "numStart c = (c = CHR ''-'' \<or> isDigit c)"

definition firstByte :: "string \<Rightarrow> char option" where
  "firstByte x = (case dropWhile isSpace x of [] \<Rightarrow> None | c # cs \<Rightarrow> Some c)"

definition snocByte :: "char option \<Rightarrow> char \<Rightarrow> char option" where
  "snocByte fb c = (case fb of Some a \<Rightarrow> Some a | None \<Rightarrow> if isSpace c then None else Some c)"

definition numFirst :: "char option \<Rightarrow> bool" where
  "numFirst fb = (case fb of Some a \<Rightarrow> numStart a | None \<Rightarrow> False)"

definition isNumState :: "step_fn \<Rightarrow> bool" where
  "isNumState f = (f \<in> {StateNeg, State1, State0, StateDot, StateDot0, StateE, StateESign, StateE0})"

definition isBeginInner :: "step_fn \<Rightarrow> bool" where
  "isBeginInner f = (f \<in> {StateBeginValueOrEmpty, StateBeginStringOrEmpty, StateBeginString})"

definition topInv :: "scanner \<Rightarrow> char option \<Rightarrow> bool" where
  "topInv s fb =
     (parseState s = [] \<longrightarrow>
        (step s = StateBeginValue \<longrightarrow> fb = None) \<and> \<not> isBeginInner (step s)
        \<and> (isNumState (step s) \<longrightarrow> numFirst fb))"

definition cutInNumber :: "string \<Rightarrow> bool" where
  "cutInNumber x =
     (case scanValue scanner_reset x 0 of
        Exhausted s \<Rightarrow> step s \<in> {State1, State0, StateDot0, StateE0} \<and> parseState s = []
      | ValueEnd n \<Rightarrow> False
      | ScanFailed \<Rightarrow> False)"

subsection \<open>Streams whose documents do not depend on the chunking\<close>

text \<open>A document that starts as a number does: with a digit or a minus sign.\<close>

definition isNumberDoc :: "string \<Rightarrow> bool" where
  "isNumberDoc d = (case d of [] \<Rightarrow> False | a # as \<Rightarrow> numStart a)"

text \<open>What is left in the buffer when the decoder stops.\<close>

definition residual :: "stream_end \<Rightarrow> string" where
  "residual e = (case e of IncompleteDocument tail \<Rightarrow> tail | EndOfInput \<Rightarrow> [] | MalformedDocument \<Rightarrow> [])"

text \<open>
  The stream decodes to its end into complete documents, none of which is a number.
\<close>

definition nonNumberDocuments :: "string \<Rightarrow> bool" where
  "nonNumberDocuments z =
     (snd (decodeAll z) = EndOfInput \<and> list_all (\<lambda>d. \<not> isNumberDoc d) (fst (decodeAll z)))"

text \<open>The outcome of a file without the buffer.\<close>

definition forgetBuffer :: "ingest \<times> 'r \<Rightarrow> ingest \<times> 'r" where
  "forgetBuffer x = (case x of (st, r) \<Rightarrow> (st\<lparr>bytesBuffer := []\<rparr>, r))"

text \<open>The whole stream decoded at once and its documents emitted.\<close>

definition emitStream :: "'item env \<Rightarrow> ingest \<Rightarrow> string \<Rightarrow> ingest \<times> error option outcome" where
  "emitStream env st z =
     (case emitDocs env (st\<lparr>bytesBuffer := []\<rparr>) (fst (decodeAll z)) of
        (st', Some r) \<Rightarrow> (st', r)
      | (st', None) \<Rightarrow> (st', Returns None))"

text \<open>The single-message sends (\<open>SendMessage\<close>) among the requests made.\<close>

fun isSendMessage :: "sqs_call \<Rightarrow> bool" where
  "isSendMessage (SendMessageCall i err) = True"
| "isSendMessage (SendMessageBatchCall es out err) = False"

definition sendMessageCalls :: "world \<Rightarrow> sqs_call list" where
  "sendMessageCalls w = filter isSendMessage w"

subsection \<open>The item list as slices\<close>

text \<open>The list of slices the loop of enqueueItems takes, in order.\<close>

definition itemSlices :: "'item ItemList \<Rightarrow> 'item list option list" where
  "itemSlices itemList =
     map (\<lambda>i. goSlice (Items itemList)
                 (sliceMin (BatchSize_items itemList) (int i))
                 (sliceMax (int (length (Items itemList))) (BatchSize_items itemList) (int i)))
       [0..<nat (itemBatchCount (int (length (Items itemList))) (BatchSize_items itemList))]"

text \<open>One Add per slice, in order, stopping at the first call that does not return success.\<close>

fun submitSlices ::
  "'item env \<Rightarrow> 'item ItemList \<Rightarrow> int \<Rightarrow> 'item list list \<Rightarrow> SQSBatchUploader \<Rightarrow> world \<Rightarrow> nat
     \<Rightarrow> SQSBatchUploader \<times> world \<times> nat \<times> error option outcome" where
  "submitSlices env itemList i [] uploader w n = (uploader, w, n, Returns None)"
| "submitSlices env itemList i (items # slices) uploader w n =
     (case marshalItems env items of
        None \<Rightarrow> (uploader, w, n, Returns (Some (Wrap MarshalError (BatchCtx i))))
      | Some jsonBytes \<Rightarrow>
          (case AddToBatch uploader w (randomID env n) jsonBytes of
             (u', w', Panics p) \<Rightarrow> (u', w', Suc n, Panics p)
           | (u', w', Returns (Some err)) \<Rightarrow>
               (u', w', Suc n,
                Returns (Some (if BatchSize_items itemList > 1 then Wrap err (ItemCtx i)
                               else Wrap err (ItemsBetweenCtx
                                  (sliceMin (BatchSize_items itemList) i)
                                  (sliceMax (int (length (Items itemList))) (BatchSize_items itemList) i)))))
           | (u', w', Returns None) \<Rightarrow> submitSlices env itemList (i + 1) slices u' w' (Suc n)))"

subsection \<open>Concrete uploaders and backends for the examples\<close>

text \<open>A backend that accepts everything, one that is unreachable, and one that answers
  without a transport error but rejects every message of the batch.\<close>

definition okClient :: awsClient where
  "okClient = \<lparr>SendMessageBatch = (\<lambda>k es. (\<lparr>Failed = []\<rparr>, None)), SendMessage = (\<lambda>k i. None)\<rparr>"

definition downClient :: awsClient where
  "downClient =
     \<lparr>SendMessageBatch = (\<lambda>k es. (\<lparr>Failed = []\<rparr>, Some ''unavailable'')),
      SendMessage = (\<lambda>k i. Some ''unavailable'')\<rparr>"

definition rejectingClient :: awsClient where
  "rejectingClient =
     \<lparr>SendMessageBatch =
        (\<lambda>k es. (\<lparr>Failed = map (\<lambda>e. \<lparr>FailedId = Id e, Message = ''rejected''\<rparr>) es\<rparr>, None)),
      SendMessage = (\<lambda>k i. None)\<rparr>"

text \<open>The entry \<open>AddToBatch\<close> builds for an identity and a body (lines 48-53).\<close>

definition entry :: "string \<Rightarrow> string \<Rightarrow> SendMessageBatchRequestEntry" where
  "entry ident body =
     \<lparr>Id = ident, MessageBody = body, MessageDeduplicationId = ident, MessageGroupId = ident\<rparr>"

text \<open>An uploader whose map has been allocated, as it is after a successful Flush.\<close>

definition emptyUploader :: "awsClient \<Rightarrow> string \<Rightarrow> SQSBatchUploader" where
  "emptyUploader client url = (newUploader client url)\<lparr>messageIDToListIndex := Some Map.empty\<rparr>"

fun joinRaw :: "string list \<Rightarrow> string" where
  "joinRaw [] = []"
| "joinRaw [d] = d"
| "joinRaw (d # ds) = d @ '','' @ joinRaw ds"

definition marshalRaw :: "string list \<Rightarrow> string option" where
  "marshalRaw ds = Some (''['' @ joinRaw ds @ '']'')"

definition exampleEnv :: "awsClient \<Rightarrow> string env" where
  "exampleEnv client =
     \<lparr>AWS = client, randomID = (\<lambda>k. ''id'' @ replicate k (CHR ''+'')), RandomName = ''sentinel'',
      livenessResult = None, marshalItems = marshalRaw, marshalPaths = marshalRaw,
      marshalDocs = marshalRaw, S3FileChunks = (\<lambda>bucket key. [])\<rparr>"

definition startIngest :: "SQSBatchUploader \<Rightarrow> int \<Rightarrow> ingest" where
  "startIngest u batchSize =
     \<lparr>ing_uploader = u, ing_sqs = [], ing_drawn = 0, bytesBuffer = [],
      jsonMessageList = \<lparr>BatchSize = batchSize, messageList_json = []\<rparr>, itemIndex = 0\<rparr>"

text \<open>The stream \<open>{"a":1}{"b":2}{"c":3}\<close>.\<close>

definition exampleDoc :: "string \<Rightarrow> string" where
  "exampleDoc k = ''{'' @ [CHR 0x22] @ k @ [CHR 0x22] @ '':1}''"

definition exampleStream :: string where
  "exampleStream = exampleDoc ''a'' @ exampleDoc ''b'' @ exampleDoc ''c''"

text \<open>A run of \<open>n\<close> spaces.\<close>

definition padding :: "nat \<Rightarrow> string" where
  "padding n = replicate n (CHR '' '')"

section \<open>Properties of the batch uploader\<close>

declare flushAttempts.simps [simp del]

lemma sendOf_simps [simp]:
  "sendOf es (SendMessageBatchCall es' out err) = (es' = es)"
  "sendOf es (SendMessageCall i err') = False"
  by (simp_all add: sendOf_def)

lemma failedSendOf_simps [simp]:
  "failedSendOf es (SendMessageBatchCall es' out err) = (es' = es \<and> err \<noteq> None)"
  "failedSendOf es (SendMessageCall i err') = False"
  by (simp_all add: failedSendOf_def)

lemma enqueueToSQS_world:
  "enqueueToSQS u w = (w', r) \<Longrightarrow> \<exists>out err. w' = w @ [SendMessageBatchCall (messageList u) out err] \<and> (r = None \<longleftrightarrow> err = None)
     \<and> (out, err) = SendMessageBatch (Client u) (length w) (messageList u)"
  by (auto simp: enqueueToSQS_def split: prod.splits option.splits list.splits)

lemma flushAttempts_shape:
  "flushAttempts u w retries attempt err = (u', w', res) \<Longrightarrow>
     \<exists>new. w' = w @ new \<and> list_all (sendOf (messageList u)) new
       \<and> (new \<noteq> [] \<longrightarrow> attempt < retries)
       \<and> ((u' = u \<and> (res = None \<longrightarrow> new = [] \<and> err = None \<and> \<not> attempt < retries))
            \<or> (u' = cleared u \<and> res = None \<and> new \<noteq> []))"
proof (induction u w retries attempt err arbitrary: u' w' res rule: flushAttempts.induct)
  case (1 uploader w retries attempt err)
  show ?case
  proof (cases "attempt < retries")
    case False
    with "1.prems" show ?thesis
      by (auto simp: flushAttempts.simps errors_Wrap_def split: option.splits)
  next
    case True
    obtain w1 r1 where e: "enqueueToSQS uploader w = (w1, r1)" by (cases "enqueueToSQS uploader w")
    from enqueueToSQS_world [OF e] obtain out er where
      w1: "w1 = w @ [SendMessageBatchCall (messageList uploader) out er]" by blast
    show ?thesis
    proof (cases r1)
      case None
      with True e "1.prems" w1 show ?thesis
        by (auto simp: flushAttempts.simps cleared_def)
    next
      case (Some e1)
      with True e "1.prems" have rec: "flushAttempts uploader w1 retries (attempt + 1) (Some e1) = (u', w', res)"
        by (simp add: flushAttempts.simps)
      from "1.IH" [OF True e [symmetric] _ rec] Some
      obtain new where "w' = w1 @ new" "list_all (sendOf (messageList uploader)) new"
        "(u' = uploader \<and> res \<noteq> None) \<or> (u' = cleared uploader \<and> res = None \<and> new \<noteq> [])"
        by auto
      with w1 True show ?thesis
        by (auto intro!: exI [of _ "SendMessageBatchCall (messageList uploader) out er # new"])
    qed
  qed
qed

lemma Flush_shape:
  assumes "Flush u w = (u', w', res)"
  shows "\<exists>new. w' = w @ new \<and> list_all (sendOf (messageList u)) new
       \<and> (new \<noteq> [] \<longrightarrow> 0 < retriesOf u \<and> messageList u \<noteq> [])
       \<and> ((u' = u \<and> (res = None \<longrightarrow> new = [] \<and> (messageList u = [] \<or> retriesOf u \<le> 0)))
            \<or> (u' = cleared u \<and> res = None \<and> new \<noteq> []))"
proof (cases "messageList u = []")
  case True
  with assms show ?thesis by (simp add: Flush_def)
next
  case False
  with assms have "flushAttempts u w (retriesOf u) 0 None = (u', w', res)"
    by (simp add: Flush_def)
  from flushAttempts_shape [OF this] False show ?thesis by force
qed

lemma flushAttempts_all_fail:
  assumes "nat (retries - attempt) = m"
    and "\<forall>k<m. snd (SendMessageBatch (Client u) (length w + k) (messageList u)) \<noteq> None"
  shows "\<exists>new e. flushAttempts u w retries attempt err =
            (u, w @ new, errors_Wrap (if m = 0 then err else Some e) (FailedAfterRetrying retries))
          \<and> length new = m \<and> list_all (failedSendOf (messageList u)) new"
  using assms
proof (induction m arbitrary: w attempt err)
  case 0
  then have "\<not> attempt < retries" by simp
  then show ?case by (simp add: flushAttempts.simps)
next
  case (Suc m)
  then have lt: "attempt < retries" by linarith
  obtain out er where r: "SendMessageBatch (Client u) (length w) (messageList u) = (out, er)"
    by (cases "SendMessageBatch (Client u) (length w) (messageList u)")
  from Suc.prems(2) [rule_format, of 0] r obtain e0 where er: "er = Some e0" by auto
  let ?c = "SendMessageBatchCall (messageList u) out er"
  obtain e1 where e: "enqueueToSQS u w = (w @ [?c], Some e1)"
    using r er by (cases "Failed out") (auto simp: enqueueToSQS_def)
  have m: "nat (retries - (attempt + 1)) = m" using Suc.prems(1) by linarith
  have fails: "\<forall>k<m. snd (SendMessageBatch (Client u) (length (w @ [?c]) + k) (messageList u)) \<noteq> None"
    using Suc.prems(2) by (auto dest: spec [of _ "Suc k" for k])
  from Suc.IH [OF m fails, of "Some e1"] obtain new e where
    rec: "flushAttempts u (w @ [?c]) retries (attempt + 1) (Some e1) =
            (u, (w @ [?c]) @ new, errors_Wrap (if m = 0 then Some e1 else Some e) (FailedAfterRetrying retries))"
      and len: "length new = m" and all: "list_all (failedSendOf (messageList u)) new"
    by blast
  have "flushAttempts u w retries attempt err =
          (u, w @ (?c # new), errors_Wrap (Some (if m = 0 then e1 else e)) (FailedAfterRetrying retries))"
    using lt e rec by (simp add: flushAttempts.simps [of u w])
  with len all er show ?case
    by (intro exI [of _ "?c # new"] exI [of _ "if m = 0 then e1 else e"]) simp
qed

lemma Flush_TotalBatches: "Flush u w = (u', w', res) \<Longrightarrow> TotalBatches u' = TotalBatches u"
  by (drule Flush_shape) (auto simp: cleared_def)

lemma AddToBatch_TotalBatches:
  assumes "AddToBatch u w ident body = (u', w', r)"
  shows "TotalBatches u' = TotalBatches u + (if r = Returns None then 1 else 0)"
proof (cases "int (length body) > messageSizeLimit")
  case True
  with assms show ?thesis by (auto simp: AddToBatch_def)
next
  case False
  define pre where "pre = (if int (length body) + totalBytes u > messageSizeLimit
                  \<or> int (length (messageList u)) = maxMessagesPerBatch
               then Flush u w else (u, w, None))"
  obtain u1 w1 r1 where pre: "pre = (u1, w1, r1)" by (cases pre)
  have tb: "TotalBatches u1 = TotalBatches u"
    using pre Flush_TotalBatches [of u w u1 w1 r1] by (auto simp: pre_def split: if_splits)
  from assms False pre tb show ?thesis
    by (auto simp: AddToBatch_def Let_def pre_def [symmetric] split: option.splits)
qed

lemma addSucceeded_iff [simp]:
  "addSucceeded (CallAddToBatch ident body, r) = (r = Returns None)"
  "addSucceeded (CallFlush, r) = False"
  by (cases r; cases "case r of Returns x \<Rightarrow> x"; simp)+

lemma callUploader_TotalBatches:
  "callUploader u w c = (u', w', r) \<Longrightarrow>
     TotalBatches u' = TotalBatches u + (if addSucceeded (c, r) then 1 else 0)"
  by (cases c)
     (auto simp: callUploader_def split: prod.splits
           dest: AddToBatch_TotalBatches Flush_TotalBatches)

lemma callsUploader_TotalBatches:
  "callsUploader u w cs = (u', w', rs) \<Longrightarrow> TotalBatches u' = TotalBatches u + int (succeededAdds cs rs)"
proof (induction cs arbitrary: u w u' w' rs)
  case Nil
  then show ?case by (simp add: succeededAdds_def)
next
  case (Cons c cs)
  obtain u1 w1 r1 where c: "callUploader u w c = (u1, w1, r1)" by (cases "callUploader u w c")
  note tb = callUploader_TotalBatches [OF c]
  show ?case
  proof (cases r1)
    case (Panics p)
    with Cons.prems c tb show ?thesis
      by (cases c) (auto simp: succeededAdds_def)
  next
    case (Returns r)
    obtain u2 w2 rs2 where rest: "callsUploader u1 w1 cs = (u2, w2, rs2)"
      by (cases "callsUploader u1 w1 cs")
    from Cons.IH [OF rest] Cons.prems c Returns rest tb show ?thesis
      by (auto simp: succeededAdds_def)
  qed
qed

lemma retriesOf_cleared [simp]: "retriesOf (cleared u) = retriesOf u"
  by (simp add: retriesOf_def cleared_def)

lemma sendOf_validSend:
  "uploader_ok u \<Longrightarrow> list_all (sendOf (messageList u)) new \<Longrightarrow> list_all validSend new"
  by (induction new) (auto simp: uploader_ok_def sendOf_def split: sqs_call.splits)

lemma Flush_valid:
  assumes "attempts_ok u" and "Flush u w = (u', w', res)"
  shows "(\<exists>new. w' = w @ new \<and> list_all validSend new) \<and> retriesOf u' = retriesOf u
         \<and> attempts_ok u'
         \<and> (res = None \<and> 0 < retriesOf u \<longrightarrow> messageList u' = [] \<and> totalBytes u' = 0)"
proof -
  from Flush_shape [OF assms(2)] obtain new where
    w': "w' = w @ new" and all: "list_all (sendOf (messageList u)) new"
    and ne: "new \<noteq> [] \<longrightarrow> 0 < retriesOf u \<and> messageList u \<noteq> []"
    and u': "(u' = u \<and> (res = None \<longrightarrow> new = [] \<and> (messageList u = [] \<or> retriesOf u \<le> 0)))
            \<or> (u' = cleared u \<and> res = None \<and> new \<noteq> [])"
    by blast
  have valid: "list_all validSend new"
  proof (cases "new = []")
    case True then show ?thesis by simp
  next
    case False
    with ne assms(1) have "uploader_ok u" by (simp add: attempts_ok_def)
    from sendOf_validSend [OF this all] show ?thesis .
  qed
  have ok_cleared: "uploader_ok (cleared u)"
    by (simp add: uploader_ok_def cleared_def batchBytes_def messageSizeLimit_def maxMessagesPerBatch_def)
  from u' show ?thesis
  proof
    assume a: "u' = u \<and> (res = None \<longrightarrow> new = [] \<and> (messageList u = [] \<or> retriesOf u \<le> 0))"
    with assms(1) w' valid show ?thesis
      by (auto simp: attempts_ok_def uploader_ok_def batchBytes_def)
  next
    assume "u' = cleared u \<and> res = None \<and> new \<noteq> []"
    with w' valid ok_cleared show ?thesis
      by (auto simp: attempts_ok_def) (simp_all add: cleared_def)
  qed
qed

lemma AddToBatch_valid:
  assumes ok: "attempts_ok u" and add: "AddToBatch u w ident body = (u', w', r)"
  shows "(\<exists>new. w' = w @ new \<and> list_all validSend new)
         \<and> (\<forall>x. r = Returns x \<longrightarrow> attempts_ok u' \<and> retriesOf u' = retriesOf u)"
proof (cases "int (length body) > messageSizeLimit")
  case True
  with assms show ?thesis by (auto simp: AddToBatch_def)
next
  case small: False
  let ?cond = "int (length body) + totalBytes u > messageSizeLimit
                  \<or> int (length (messageList u)) = maxMessagesPerBatch"
  define pre where "pre = (if ?cond then Flush u w else (u, w, None))"
  obtain u1 w1 r1 where pre: "pre = (u1, w1, r1)" by (cases pre)
  have p: "(\<exists>new. w1 = w @ new \<and> list_all validSend new) \<and> retriesOf u1 = retriesOf u
         \<and> attempts_ok u1
         \<and> (r1 = None \<and> 0 < retriesOf u \<and> ?cond \<longrightarrow> messageList u1 = [] \<and> totalBytes u1 = 0)
         \<and> (\<not> ?cond \<longrightarrow> u1 = u)"
  proof (cases ?cond)
    case True
    with pre have "Flush u w = (u1, w1, r1)" by (simp add: pre_def)
    from Flush_valid [OF ok this] True show ?thesis by simp
  next
    case False
    with pre ok show ?thesis by (auto simp: pre_def)
  qed
  show ?thesis
  proof (cases r1)
    case (Some e)
    with add small pre p show ?thesis
      by (auto simp: AddToBatch_def Let_def pre_def [symmetric])
  next
    case None
    have w1: "w' = w1" using add small pre None
      by (auto simp: AddToBatch_def Let_def pre_def [symmetric] split: option.splits)
    have "attempts_ok u' \<and> retriesOf u' = retriesOf u" if "r = Returns x" for x
    proof -
      from that add small pre None obtain m where
        u': "u' = u1\<lparr>messageList := messageList u1 @ [\<lparr>Id = ident, MessageBody = body,
                        MessageDeduplicationId = ident, MessageGroupId = ident\<rparr>],
                  messageIDToListIndex := Some m,
                  totalBytes := totalBytes u1 + int (length body),
                  TotalBatches := TotalBatches u1 + 1\<rparr>"
        by (auto simp: AddToBatch_def Let_def pre_def [symmetric] split: option.splits)
      have r: "retriesOf u' = retriesOf u" using p u' by (simp add: retriesOf_def)
      have "uploader_ok u'" if pos: "0 < retriesOf u"
      proof (cases ?cond)
        case True
        with p None pos have "messageList u1 = []" "totalBytes u1 = 0" by auto
        with u' small show ?thesis
          by (simp add: uploader_ok_def batchBytes_def maxMessagesPerBatch_def)
      next
        case False
        with p have "u1 = u" by simp
        moreover from ok pos have "uploader_ok u" by (simp add: attempts_ok_def)
        ultimately show ?thesis using u' False
          by (auto simp: uploader_ok_def batchBytes_def)
      qed
      with r show ?thesis by (simp add: attempts_ok_def)
    qed
    with p w1 show ?thesis by blast
  qed
qed

lemma callUploader_valid:
  assumes ok: "attempts_ok u" and c: "callUploader u w c = (u', w', r)"
  shows "(\<exists>new. w' = w @ new \<and> list_all validSend new)
         \<and> (\<forall>x. r = Returns x \<longrightarrow> attempts_ok u')"
proof (cases c)
  case (CallAddToBatch ident body)
  with c have "AddToBatch u w ident body = (u', w', r)" by (simp add: callUploader_def)
  from AddToBatch_valid [OF ok this] show ?thesis by blast
next
  case CallFlush
  with c obtain res where "Flush u w = (u', w', res)"
    by (auto simp: callUploader_def split: prod.splits)
  from Flush_valid [OF ok this] show ?thesis by blast
qed

lemma callsUploader_valid:
  "attempts_ok u \<Longrightarrow> callsUploader u w cs = (u', w', rs) \<Longrightarrow>
     \<exists>new. w' = w @ new \<and> list_all validSend new"
proof (induction cs arbitrary: u w u' w' rs)
  case Nil
  then show ?case by simp
next
  case (Cons c cs)
  obtain u1 w1 r1 where c: "callUploader u w c = (u1, w1, r1)" by (cases "callUploader u w c")
  from callUploader_valid [OF Cons.prems(1) c] obtain new1 where
    w1: "w1 = w @ new1" "list_all validSend new1" and ok1: "\<forall>x. r1 = Returns x \<longrightarrow> attempts_ok u1"
    by blast
  show ?case
  proof (cases r1)
    case (Panics p)
    with Cons.prems c w1 show ?thesis by auto
  next
    case (Returns x)
    obtain u2 w2 rs2 where rest: "callsUploader u1 w1 cs = (u2, w2, rs2)"
      by (cases "callsUploader u1 w1 cs")
    with Cons.prems c Returns have "w2 = w'" by simp
    from Cons.IH [OF _ rest] ok1 Returns obtain new2 where "w2 = w1 @ new2" "list_all validSend new2"
      by blast
    with w1 \<open>w2 = w'\<close> show ?thesis by (intro exI [of _ "new1 @ new2"]) simp
  qed
qed


subsection \<open>The claims\<close>

text \<open>
  Claim C1 (as amended).  \<open>TotalBatches\<close> counts the messages queued, not the physical
  sends: for every sequence of \<open>AddToBatch\<close> and \<open>Flush\<close> calls its final value is its
  initial value plus the number of \<open>AddToBatch\<close> calls that returned success, and \<open>Flush\<close>
  never changes it.
\<close>

theorem TotalBatches_counts_successful_adds:
  "TotalBatches (fst (callsUploader u w cs)) =
     TotalBatches u + int (succeededAdds cs (snd (snd (callsUploader u w cs))))
   \<and> TotalBatches (fst (Flush u w)) = TotalBatches u"
proof -
  obtain u' w' rs where c: "callsUploader u w cs = (u', w', rs)" by (cases "callsUploader u w cs")
  obtain u1 w1 r1 where f: "Flush u w = (u1, w1, r1)" by (cases "Flush u w")
  from callsUploader_TotalBatches [OF c] Flush_TotalBatches [OF f] c f show ?thesis by simp
qed

text \<open>
  Claim C1 as stated fails: two messages are added and sent in one \<open>SendMessageBatch\<close>
  request that succeeds; the counter is 2, the number of successful sends is 1.
\<close>

theorem TotalBatches_is_not_the_number_of_sends:
  "TotalBatches (fst (callsUploader (emptyUploader okClient ''q'') []
       [CallAddToBatch ''a'' ''[1]'', CallAddToBatch ''b'' ''[2]'', CallFlush])) = 2
   \<and> succeededSends (fst (snd (callsUploader (emptyUploader okClient ''q'') []
       [CallAddToBatch ''a'' ''[1]'', CallAddToBatch ''b'' ''[2]'', CallFlush]))) = 1"
  by (simp add: callUploader_def AddToBatch_def Flush_def flushAttempts.simps enqueueToSQS_def
      emptyUploader_def newUploader_def okClient_def retriesOf_def Let_def
      messageSizeLimit_def maxMessagesPerBatch_def succeededSends_def)

text \<open>
  Claim C2 fails on the code.  On the uploader as the orchestrators construct it, an
  \<open>AddToBatch\<close> call with a payload within the limit appends the message and then faults
  at the assignment into the nil map (line 64); only an oversized payload returns.
\<close>

theorem AddToBatch_on_new_uploader_panics:
  "AddToBatch (newUploader c q) w ident body =
     (if int (length body) > messageSizeLimit
      then (newUploader c q, w,
            Returns (Some (ErrorMessageExceedsMaxSize (int (length body)) messageSizeLimit)))
      else ((newUploader c q)\<lparr>messageList := [entry ident body]\<rparr>, w, Panics NilMapAssignment))"
  by (simp add: AddToBatch_def newUploader_def Flush_def entry_def Let_def
      messageSizeLimit_def maxMessagesPerBatch_def)

text \<open>
  Claim C3 fails on the code.  The backend answers without a transport error and reports
  the one message of the batch as rejected: \<open>enqueueToSQS\<close> returns \<open>nil\<close>, and \<open>Flush\<close>
  returns \<open>nil\<close> and drops the pending message.
\<close>

theorem enqueueToSQS_reports_rejected_batch_as_success:
  "enqueueToSQS ((emptyUploader rejectingClient ''q'')
                   \<lparr>messageList := [entry ''a'' ''[1]''], totalBytes := 3\<rparr>) [] =
     ([SendMessageBatchCall [entry ''a'' ''[1]'']
         \<lparr>Failed = [\<lparr>FailedId = ''a'', Message = ''rejected''\<rparr>]\<rparr> None], None)
   \<and> Flush ((emptyUploader rejectingClient ''q'')
                   \<lparr>messageList := [entry ''a'' ''[1]''], totalBytes := 3\<rparr>) [] =
     (emptyUploader rejectingClient ''q'',
      [SendMessageBatchCall [entry ''a'' ''[1]'']
         \<lparr>Failed = [\<lparr>FailedId = ''a'', Message = ''rejected''\<rparr>]\<rparr> None], None)"
  by (simp add: Flush_def flushAttempts.simps enqueueToSQS_def emptyUploader_def
      newUploader_def rejectingClient_def retriesOf_def entry_def)

text \<open>
  Claim C4 (as amended).  From a consistent uploader, every physical send issued by any
  sequence of \<open>AddToBatch\<close> and \<open>Flush\<close> calls carries at most 256 KiB of payload and at
  most 10 messages.  An \<open>AddToBatch\<close> call sends something only when the new byte total
  would strictly exceed the limit or when 10 messages are already pending; when the new
  total is at most the limit (equal included) and fewer than 10 messages are pending,
  nothing is sent and the message joins the pending set.
\<close>

theorem sends_within_limits:
  assumes "uploader_ok u"
  shows "(\<exists>new. fst (snd (callsUploader u w cs)) = w @ new \<and> list_all validSend new)
     \<and> (fst (snd (AddToBatch u w ident body)) \<noteq> w \<longrightarrow>
          int (length body) + totalBytes u > messageSizeLimit
          \<or> int (length (messageList u)) = maxMessagesPerBatch)
     \<and> (int (length body) + totalBytes u \<le> messageSizeLimit
          \<and> int (length (messageList u)) < maxMessagesPerBatch \<longrightarrow>
          fst (snd (AddToBatch u w ident body)) = w
          \<and> messageList (fst (AddToBatch u w ident body)) = messageList u @ [entry ident body])"
proof -
  obtain u' w' rs where c: "callsUploader u w cs = (u', w', rs)" by (cases "callsUploader u w cs")
  from assms have "attempts_ok u" by (simp add: attempts_ok_def)
  from callsUploader_valid [OF this c] c
  have 1: "\<exists>new. fst (snd (callsUploader u w cs)) = w @ new \<and> list_all validSend new" by simp
  have 2: "int (length body) + totalBytes u > messageSizeLimit
          \<or> int (length (messageList u)) = maxMessagesPerBatch"
    if "fst (snd (AddToBatch u w ident body)) \<noteq> w"
    using that by (auto simp: AddToBatch_def Let_def split: if_splits option.splits)
  have "0 \<le> batchBytes es" for es
    by (induction es) (simp_all add: batchBytes_def)
  with assms have nonneg: "0 \<le> totalBytes u"
    by (simp add: uploader_ok_def)
  have 3: "fst (snd (AddToBatch u w ident body)) = w
          \<and> messageList (fst (AddToBatch u w ident body)) = messageList u @ [entry ident body]"
    if "int (length body) + totalBytes u \<le> messageSizeLimit
          \<and> int (length (messageList u)) < maxMessagesPerBatch"
    using that nonneg by (auto simp: AddToBatch_def Let_def entry_def split: option.splits)
  from 1 2 3 show ?thesis by blast
qed

text \<open>
  Two payloads of 128 KiB each add up to the limit exactly: they are sent as one batch.
\<close>

theorem sends_within_limits_witness:
  "uploader_ok (emptyUploader okClient ''q'')
   \<and> fst (snd (callsUploader (emptyUploader okClient ''q'') []
        [CallAddToBatch ''a'' (replicate 131072 (CHR ''x'')),
         CallAddToBatch ''b'' (replicate 131072 (CHR ''x'')), CallFlush])) =
       [SendMessageBatchCall
          [entry ''a'' (replicate 131072 (CHR ''x'')), entry ''b'' (replicate 131072 (CHR ''x''))]
          \<lparr>Failed = []\<rparr> None]
   \<and> batchBytes
        [entry ''a'' (replicate 131072 (CHR ''x'')), entry ''b'' (replicate 131072 (CHR ''x''))] =
       messageSizeLimit
   \<and> list_all validSend (fst (snd (callsUploader (emptyUploader okClient ''q'') []
        [CallAddToBatch ''a'' (replicate 131072 (CHR ''x'')),
         CallAddToBatch ''b'' (replicate 131072 (CHR ''x'')), CallFlush])))"
proof -
  have ok: "uploader_ok (emptyUploader okClient ''q'')"
    by (simp add: uploader_ok_def emptyUploader_def newUploader_def batchBytes_def
        messageSizeLimit_def maxMessagesPerBatch_def)
  have run: "fst (snd (callsUploader (emptyUploader okClient ''q'') []
        [CallAddToBatch ''a'' (replicate 131072 (CHR ''x'')),
         CallAddToBatch ''b'' (replicate 131072 (CHR ''x'')), CallFlush])) =
       [SendMessageBatchCall
          [entry ''a'' (replicate 131072 (CHR ''x'')), entry ''b'' (replicate 131072 (CHR ''x''))]
          \<lparr>Failed = []\<rparr> None]"
    by (simp add: callUploader_def AddToBatch_def Flush_def flushAttempts.simps enqueueToSQS_def
        emptyUploader_def newUploader_def okClient_def retriesOf_def Let_def entry_def
        messageSizeLimit_def maxMessagesPerBatch_def)
  have bytes: "batchBytes
        [entry ''a'' (replicate 131072 (CHR ''x'')), entry ''b'' (replicate 131072 (CHR ''x''))] =
       messageSizeLimit"
    by (simp add: batchBytes_def entry_def messageSizeLimit_def)
  from sends_within_limits [OF ok, of "[]"
        "[CallAddToBatch ''a'' (replicate 131072 (CHR ''x'')),
          CallAddToBatch ''b'' (replicate 131072 (CHR ''x'')), CallFlush]"]
  have "list_all validSend (fst (snd (callsUploader (emptyUploader okClient ''q'') []
        [CallAddToBatch ''a'' (replicate 131072 (CHR ''x'')),
         CallAddToBatch ''b'' (replicate 131072 (CHR ''x'')), CallFlush])))"
    by auto
  with ok run bytes show ?thesis by simp
qed

text \<open>
  Claim C4 as stated fails: with 10 one-byte messages pending, adding an eleventh flushes
  the ten although the new byte total, 11, does not exceed the limit.
\<close>

theorem flush_triggered_by_count_alone:
  "fst (snd (callsUploader (emptyUploader okClient ''q'') []
       (map (\<lambda>i. CallAddToBatch i ''x'')
          [''a'', ''b'', ''c'', ''d'', ''e'', ''f'', ''g'', ''h'', ''i'', ''j'']))) = []
   \<and> totalBytes (fst (callsUploader (emptyUploader okClient ''q'') []
       (map (\<lambda>i. CallAddToBatch i ''x'')
          [''a'', ''b'', ''c'', ''d'', ''e'', ''f'', ''g'', ''h'', ''i'', ''j'']))) = 10
   \<and> int (length ''x'') + 10 \<le> messageSizeLimit
   \<and> fst (snd (AddToBatch
        (fst (callsUploader (emptyUploader okClient ''q'') []
           (map (\<lambda>i. CallAddToBatch i ''x'')
              [''a'', ''b'', ''c'', ''d'', ''e'', ''f'', ''g'', ''h'', ''i'', ''j''])))
        [] ''k'' ''x'')) =
      [SendMessageBatchCall
         (map (\<lambda>i. entry i ''x'')
            [''a'', ''b'', ''c'', ''d'', ''e'', ''f'', ''g'', ''h'', ''i'', ''j''])
         \<lparr>Failed = []\<rparr> None]"
  by (simp add: callUploader_def AddToBatch_def Flush_def flushAttempts.simps enqueueToSQS_def
      emptyUploader_def newUploader_def okClient_def retriesOf_def Let_def entry_def
      messageSizeLimit_def maxMessagesPerBatch_def)

text \<open>
  Claim C7, for a configured number of attempts of at least 1.  The configured number is
  the one \<open>Retries\<close> points to, and 3 when \<open>Retries\<close> is nil.  If every send attempt
  fails, \<open>Flush\<close> on a non-empty pending set makes exactly that number of attempts, each
  with the whole pending list, returns the last attempt's error wrapped with that number,
  and returns the uploader unchanged.
\<close>

theorem Flush_all_attempts_fail:
  assumes "messageList u \<noteq> []"
    and "Retries u = Some configured \<or> Retries u = None \<and> configured = 3"
    and "1 \<le> configured"
    and "\<forall>k < nat configured.
           snd (SendMessageBatch (Client u) (length w + k) (messageList u)) \<noteq> None"
  shows "\<exists>new e. Flush u w = (u, w @ new, Some (Wrap e (FailedAfterRetrying configured)))
           \<and> int (length new) = configured
           \<and> list_all (failedSendOf (messageList u)) new"
proof -
  from assms(2) have r: "retriesOf u = configured" by (auto simp: retriesOf_def)
  have "\<forall>k<nat (configured - 0).
           snd (SendMessageBatch (Client u) (length w + k) (messageList u)) \<noteq> None"
    using assms(4) by simp
  from flushAttempts_all_fail [OF refl this, of None]
  obtain new e where "flushAttempts u w configured 0 None =
            (u, w @ new, errors_Wrap (if nat configured = 0 then None else Some e) (FailedAfterRetrying configured))"
     "length new = nat configured" "list_all (failedSendOf (messageList u)) new"
    by auto
  with assms(1,3) r show ?thesis
    by (auto simp: Flush_def errors_Wrap_def)
qed

text \<open>
  Claim C7 on a pending message and a backend that is down: two attempts when \<open>Retries\<close>
  points to 2, three when it is nil.
\<close>

theorem Flush_all_attempts_fail_witness:
  "Flush ((emptyUploader downClient ''q'')
       \<lparr>Retries := Some 2, messageList := [entry ''a'' ''[1]''], totalBytes := 3\<rparr>) [] =
      ((emptyUploader downClient ''q'')
         \<lparr>Retries := Some 2, messageList := [entry ''a'' ''[1]''], totalBytes := 3\<rparr>,
       replicate 2 (SendMessageBatchCall [entry ''a'' ''[1]''] \<lparr>Failed = []\<rparr> (Some ''unavailable'')),
       Some (Wrap (AwsError ''unavailable'') (FailedAfterRetrying 2)))
   \<and> Flush ((emptyUploader downClient ''q'')
       \<lparr>Retries := None, messageList := [entry ''a'' ''[1]''], totalBytes := 3\<rparr>) [] =
      ((emptyUploader downClient ''q'')
         \<lparr>Retries := None, messageList := [entry ''a'' ''[1]''], totalBytes := 3\<rparr>,
       replicate 3 (SendMessageBatchCall [entry ''a'' ''[1]''] \<lparr>Failed = []\<rparr> (Some ''unavailable'')),
       Some (Wrap (AwsError ''unavailable'') (FailedAfterRetrying 3)))"
proof -
  let ?u2 = "(emptyUploader downClient ''q'')
       \<lparr>Retries := Some 2, messageList := [entry ''a'' ''[1]''], totalBytes := 3\<rparr>"
  let ?u3 = "(emptyUploader downClient ''q'')
       \<lparr>Retries := None, messageList := [entry ''a'' ''[1]''], totalBytes := 3\<rparr>"
  let ?c = "SendMessageBatchCall [entry ''a'' ''[1]''] \<lparr>Failed = []\<rparr> (Some ''unavailable'')"
  have ne2: "messageList ?u2 \<noteq> []" and ne3: "messageList ?u3 \<noteq> []" by simp_all
  have c2: "Retries ?u2 = Some 2 \<or> Retries ?u2 = None \<and> (2::int) = 3" by simp
  have c3: "Retries ?u3 = Some 3 \<or> Retries ?u3 = None \<and> (3::int) = 3" by simp
  have f2: "\<forall>k < nat 2.
      snd (SendMessageBatch (Client ?u2) (length ([] :: world) + k) (messageList ?u2)) \<noteq> None"
    by (simp add: emptyUploader_def newUploader_def downClient_def)
  have f3: "\<forall>k < nat 3.
      snd (SendMessageBatch (Client ?u3) (length ([] :: world) + k) (messageList ?u3)) \<noteq> None"
    by (simp add: emptyUploader_def newUploader_def downClient_def)
  from Flush_all_attempts_fail [OF ne2 c2 _ f2] obtain new2 e2 where
    g2: "Flush ?u2 [] = (?u2, [] @ new2, Some (Wrap e2 (FailedAfterRetrying 2)))"
    and l2: "int (length new2) = 2"
    by auto
  from Flush_all_attempts_fail [OF ne3 c3 _ f3] obtain new3 e3 where
    g3: "Flush ?u3 [] = (?u3, [] @ new3, Some (Wrap e3 (FailedAfterRetrying 3)))"
    and l3: "int (length new3) = 3"
    by auto
  have v2: "Flush ?u2 [] = (?u2, replicate 2 ?c,
       Some (Wrap (AwsError ''unavailable'') (FailedAfterRetrying 2)))"
    using g2
    by (simp add: Flush_def flushAttempts.simps enqueueToSQS_def emptyUploader_def
        newUploader_def downClient_def retriesOf_def errors_Wrap_def numeral_2_eq_2)
  have v3: "Flush ?u3 [] = (?u3, replicate 3 ?c,
       Some (Wrap (AwsError ''unavailable'') (FailedAfterRetrying 3)))"
    using g3
    by (simp add: Flush_def flushAttempts.simps enqueueToSQS_def emptyUploader_def
        newUploader_def downClient_def retriesOf_def errors_Wrap_def numeral_3_eq_3)
  from v2 v3 show ?thesis by simp
qed

text \<open>
  Claim C7 as stated fails when the configured number is not positive: the loop of lines
  82-90 is not entered, the error wrapped at line 91 is nil, and \<open>Flush\<close> returns nil on
  a non-empty pending set without a single attempt.  With \<open>Retries\<close> pointing to -1 the
  number of attempts, none, is not the configured number either.
\<close>

theorem Flush_makes_no_attempt_for_nonpositive_count:
  "Flush ((emptyUploader downClient ''q'')
       \<lparr>Retries := Some 0, messageList := [entry ''a'' ''[1]''], totalBytes := 3\<rparr>) [] =
      ((emptyUploader downClient ''q'')
         \<lparr>Retries := Some 0, messageList := [entry ''a'' ''[1]''], totalBytes := 3\<rparr>, [], None)
   \<and> Flush ((emptyUploader downClient ''q'')
       \<lparr>Retries := Some (- 1), messageList := [entry ''a'' ''[1]''], totalBytes := 3\<rparr>) [] =
      ((emptyUploader downClient ''q'')
         \<lparr>Retries := Some (- 1), messageList := [entry ''a'' ''[1]''], totalBytes := 3\<rparr>, [], None)"
  by (simp add: Flush_def flushAttempts.simps retriesOf_def errors_Wrap_def emptyUploader_def
      newUploader_def)

text \<open>
  Claim C9.  An \<open>AddToBatch\<close> call whose payload is longer than the 256 KiB limit returns
  the message-exceeds-max-size error; the uploader (message list, byte total, counter,
  identity map) is returned unchanged and no request is sent to the queue.
\<close>

theorem AddToBatch_rejects_oversized:
  assumes "int (length body) > messageSizeLimit"
  shows "AddToBatch uploader w ident body =
           (uploader, w,
            Returns (Some (ErrorMessageExceedsMaxSize (int (length body)) messageSizeLimit)))"
  using assms by (simp add: AddToBatch_def)

theorem AddToBatch_rejects_oversized_witness:
  "int (length (replicate 262145 (CHR ''x''))) > messageSizeLimit
   \<and> AddToBatch (newUploader okClient ''q'') [] ''id'' (replicate 262145 (CHR ''x'')) =
       (newUploader okClient ''q'', [],
        Returns (Some (ErrorMessageExceedsMaxSize 262145 messageSizeLimit)))"
proof -
  have big: "int (length (replicate 262145 (CHR ''x''))) > messageSizeLimit"
    by (simp add: messageSizeLimit_def)
  show ?thesis
    using big AddToBatch_rejects_oversized [OF big, of "newUploader okClient ''q''" "[]" "''id''"]
    by simp
qed

section \<open>Properties of the item-list orchestrator\<close>

declare enqueueItemsLoop.simps [simp del]

lemma go_div_nonneg: "0 \<le> a \<Longrightarrow> 0 < b \<Longrightarrow> go_div a b = a div b"
  by (cases "a = 0") (simp_all add: go_div_def)

lemma go_mod_nonneg: "0 \<le> a \<Longrightarrow> 0 < b \<Longrightarrow> go_mod a b = a mod b"
  by (simp add: go_mod_def go_div_nonneg minus_mult_div_eq_mod)

lemma itemBatchCount_ceiling:
  assumes "0 \<le> len" "1 \<le> b"
  shows "itemBatchCount len b = \<lceil>real_of_int len / real_of_int b\<rceil>"
proof -
  have "itemBatchCount len b = (if len mod b \<noteq> 0 then len div b + 1 else len div b)"
    using assms by (simp add: itemBatchCount_def go_div_nonneg go_mod_nonneg)
  also have "\<dots> = - (- len div b)"
    using assms by (simp add: zdiv_zminus1_eq_if)
  also have "\<dots> = \<lceil>real_of_int len / real_of_int b\<rceil>"
    by (simp add: ceiling_divide_eq_div)
  finally show ?thesis .
qed

lemma itemBatchCount_bounds:
  assumes "0 \<le> len" "1 \<le> b"
  shows "0 \<le> itemBatchCount len b"
    and "len \<le> itemBatchCount len b * b"
    and "\<And>i. i < itemBatchCount len b \<Longrightarrow> i * b < len"
proof -
  have c: "itemBatchCount len b = (if len mod b \<noteq> 0 then len div b + 1 else len div b)"
    using assms by (simp add: itemBatchCount_def go_div_nonneg go_mod_nonneg)
  have d: "0 \<le> len div b" using assms by (simp add: pos_imp_zdiv_nonneg_iff)
  show "0 \<le> itemBatchCount len b" using c d by simp
  have e: "len = len div b * b + len mod b" by simp
  have m: "0 \<le> len mod b" "len mod b < b" using assms by simp_all
  show "len \<le> itemBatchCount len b * b"
  proof (cases "len mod b = 0")
    case True
    with c e show ?thesis by simp
  next
    case False
    with c have "itemBatchCount len b * b = len div b * b + b" by (simp add: algebra_simps)
    with e m show ?thesis by linarith
  qed
  fix i assume i: "i < itemBatchCount len b"
  show "i * b < len"
  proof (cases "len mod b = 0")
    case True
    with c i have "i + 1 \<le> len div b" by simp
    then have "(i + 1) * b \<le> len div b * b" using assms by (simp add: mult_right_mono)
    with e True assms show ?thesis by (simp add: algebra_simps)
  next
    case False
    with c i have "i \<le> len div b" by simp
    then have "i * b \<le> len div b * b" using assms by (simp add: mult_right_mono)
    moreover from False m have "0 < len mod b" by simp
    ultimately show ?thesis using e by linarith
  qed
qed

lemma goSlice_item:
  assumes b: "1 \<le> b" and i: "int i < itemBatchCount (int (length xs)) b"
  shows "goSlice xs (sliceMin b (int i)) (sliceMax (int (length xs)) b (int i)) =
           Some (take (nat b) (drop (i * nat b) xs))"
proof -
  from itemBatchCount_bounds(3) [OF _ b i] have lt: "int i * b < int (length xs)" by simp
  have nb: "nat (int i * b) = i * nat b" using b by (simp add: nat_mult_distrib)
  show ?thesis
  proof (cases "(int i + 1) * b > int (length xs)")
    case True
    then have "length xs - i * nat b \<le> nat b" using b lt nb
      by (simp add: algebra_simps)
    with True lt b nb show ?thesis
      by (simp add: goSlice_def sliceMin_def sliceMax_def nat_diff_distrib)
  next
    case False
    have "nat ((int i + 1) * b - int i * b) = nat b" by (simp add: algebra_simps)
    with False lt b nb show ?thesis
      by (simp add: goSlice_def sliceMin_def sliceMax_def)
  qed
qed

lemma concat_slices_take:
  "concat (map (\<lambda>i. take b (drop (i * b) xs)) [0..<k]) = take (k * b) xs"
proof (induction k)
  case 0
  then show ?case by simp
next
  case (Suc k)
  have "take (k * b + b) xs = take (k * b) xs @ take b (drop (k * b) xs)"
    by (rule take_add)
  with Suc show ?case by (simp add: add.commute)
qed

lemma enqueueItemsLoop_submitSlices:
  assumes b: "1 \<le> BatchSize_items itemList"
    and bc: "batchCount = itemBatchCount (int (length (Items itemList))) (BatchSize_items itemList)"
    and m: "nat batchCount - i = m" and le: "i \<le> nat batchCount"
  shows "enqueueItemsLoop env itemList batchCount (int i) u w n =
         submitSlices env itemList (int i)
           (map (\<lambda>j. take (nat (BatchSize_items itemList)) (drop (j * nat (BatchSize_items itemList)) (Items itemList)))
              [i..<nat batchCount]) u w n"
  using m le
proof (induction m arbitrary: i u w n)
  case 0
  then have "i = nat batchCount" by simp
  then have "\<not> int i < batchCount" by simp
  with \<open>i = nat batchCount\<close> show ?case by (simp add: enqueueItemsLoop.simps)
next
  case (Suc m)
  then have lt: "i < nat batchCount" by simp
  then have ilt: "int i < batchCount" by simp
  have up: "[i..<nat batchCount] = i # [Suc i..<nat batchCount]"
    using lt by (simp add: upt_conv_Cons)
  have sl: "goSlice (Items itemList) (sliceMin (BatchSize_items itemList) (int i))
              (sliceMax (int (length (Items itemList))) (BatchSize_items itemList) (int i)) =
            Some (take (nat (BatchSize_items itemList)) (drop (i * nat (BatchSize_items itemList)) (Items itemList)))"
    using goSlice_item [OF b] ilt bc by simp
  have IH: "enqueueItemsLoop env itemList batchCount (int (Suc i)) u' w' n' =
         submitSlices env itemList (int (Suc i))
           (map (\<lambda>j. take (nat (BatchSize_items itemList)) (drop (j * nat (BatchSize_items itemList)) (Items itemList)))
              [Suc i..<nat batchCount]) u' w' n'" for u' w' n'
    using Suc.IH [of "Suc i"] Suc.prems lt by simp
  have s: "int i + 1 = int (Suc i)" by simp
  show ?case
    unfolding up
    by (subst enqueueItemsLoop.simps)
       (simp add: ilt sl Let_def IH s del: of_nat_Suc split: option.splits prod.splits outcome.splits)
qed

text \<open>
  Claim C8 (as amended).  For an item list of N items and a batch size B of at least 1,
  the loop of \<open>enqueueItems\<close> runs \<open>ceil(N/B)\<close> times; the slice of round \<open>i\<close> is
  the B items from position \<open>i * B\<close> on (fewer in the last round), never out of range; the
  slices concatenated in order are the item list; and the loop serializes and adds the
  slices one after the other, one \<open>AddToBatch\<close> call per slice, up to the first call that
  does not return success.
\<close>

theorem enqueueItems_partition:
  assumes "1 \<le> BatchSize_items itemList"
  shows "itemBatchCount (int (length (Items itemList))) (BatchSize_items itemList) =
           \<lceil>real (length (Items itemList)) / real_of_int (BatchSize_items itemList)\<rceil>
     \<and> itemSlices itemList =
           map (\<lambda>i. Some (take (nat (BatchSize_items itemList))
                            (drop (i * nat (BatchSize_items itemList)) (Items itemList))))
             [0..<nat \<lceil>real (length (Items itemList)) / real_of_int (BatchSize_items itemList)\<rceil>]
     \<and> concat (map (\<lambda>i. take (nat (BatchSize_items itemList))
                            (drop (i * nat (BatchSize_items itemList)) (Items itemList)))
             [0..<nat \<lceil>real (length (Items itemList)) / real_of_int (BatchSize_items itemList)\<rceil>]) =
           Items itemList
     \<and> enqueueItemsLoop env itemList
           (itemBatchCount (int (length (Items itemList))) (BatchSize_items itemList)) 0 u w n =
         submitSlices env itemList 0
           (map (\<lambda>i. take (nat (BatchSize_items itemList))
                            (drop (i * nat (BatchSize_items itemList)) (Items itemList)))
             [0..<nat \<lceil>real (length (Items itemList)) / real_of_int (BatchSize_items itemList)\<rceil>]) u w n"
proof -
  let ?b = "BatchSize_items itemList"
  let ?xs = "Items itemList"
  let ?k = "itemBatchCount (int (length ?xs)) ?b"
  have ceil: "?k = \<lceil>real (length ?xs) / real_of_int ?b\<rceil>"
    using itemBatchCount_ceiling [OF _ assms, of "int (length ?xs)"] by simp
  have slices: "itemSlices itemList =
           map (\<lambda>i. Some (take (nat ?b) (drop (i * nat ?b) ?xs))) [0..<nat ?k]"
    unfolding itemSlices_def
    by (rule map_cong [OF refl]) (simp add: goSlice_item [OF assms])
  have "int (length ?xs) \<le> ?k * ?b"
    using itemBatchCount_bounds(2) [OF _ assms, of "int (length ?xs)"] by simp
  moreover have "0 \<le> ?k"
    using itemBatchCount_bounds(1) [OF _ assms, of "int (length ?xs)"] by simp
  ultimately have "length ?xs \<le> nat ?k * nat ?b"
    using assms by (metis nat_int nat_le_iff nat_mult_distrib of_nat_0_le_iff zero_le_mult_iff nat_mono)
  then have cat: "concat (map (\<lambda>i. take (nat ?b) (drop (i * nat ?b) ?xs)) [0..<nat ?k]) = ?xs"
    by (simp add: concat_slices_take)
  have loop: "enqueueItemsLoop env itemList ?k 0 u w n =
         submitSlices env itemList 0
           (map (\<lambda>i. take (nat ?b) (drop (i * nat ?b) ?xs)) [0..<nat ?k]) u w n"
    using enqueueItemsLoop_submitSlices [OF assms refl refl, of 0 env u w n] by simp
  from ceil slices cat loop show ?thesis by simp
qed

theorem enqueueItems_partition_witness:
  "(1::int) \<le> BatchSize_items \<lparr>Items = [''1'', ''2'', ''3'', ''4'', ''5''], BatchSize_items = 2\<rparr>
   \<and> itemBatchCount 5 2 = 3
   \<and> itemSlices \<lparr>Items = [''1'', ''2'', ''3'', ''4'', ''5''], BatchSize_items = 2\<rparr> =
       [Some [''1'', ''2''], Some [''3'', ''4''], Some [''5'']]
   \<and> map MessageBody (messageList (fst
        (enqueueItemsLoop (exampleEnv okClient)
           \<lparr>Items = [''1'', ''2'', ''3'', ''4'', ''5''], BatchSize_items = 2\<rparr> 3 0
           (emptyUploader okClient ''q'') [] 0))) = [''[1,2]'', ''[3,4]'', ''[5]'']"
proof -
  let ?il = "\<lparr>Items = [''1'', ''2'', ''3'', ''4'', ''5''], BatchSize_items = 2\<rparr> :: string ItemList"
  have b: "1 \<le> BatchSize_items ?il" by simp
  have k: "itemBatchCount 5 2 = 3"
    by (simp add: itemBatchCount_def go_div_def go_mod_def)
  have c: "nat \<lceil>real (length (Items ?il)) / real_of_int (BatchSize_items ?il)\<rceil> = 3"
    by simp
  have up: "[0..<3] = [0, 1, 2]" by (simp add: upt_rec)
  note t = enqueueItems_partition [OF b, of "exampleEnv okClient" "emptyUploader okClient ''q''" "[]" 0]
  from t have sl: "itemSlices ?il = [Some [''1'', ''2''], Some [''3'', ''4''], Some [''5'']]"
    unfolding c up by simp
  from t have "enqueueItemsLoop (exampleEnv okClient) ?il 3 0 (emptyUploader okClient ''q'') [] 0 =
      submitSlices (exampleEnv okClient) ?il 0 [[''1'', ''2''], [''3'', ''4''], [''5'']]
        (emptyUploader okClient ''q'') [] 0"
    unfolding c up using k by simp
  then have "map MessageBody (messageList (fst
        (enqueueItemsLoop (exampleEnv okClient) ?il 3 0 (emptyUploader okClient ''q'') [] 0))) =
      [''[1,2]'', ''[3,4]'', ''[5]'']"
    by (simp add: exampleEnv_def marshalRaw_def AddToBatch_def Let_def emptyUploader_def
        newUploader_def messageSizeLimit_def maxMessagesPerBatch_def)
  with b k sl show ?thesis by simp
qed

text \<open>
  Claim C8 as stated fails for a batch size below 1: with B = -1 the batch count is
  negative, no slice is taken and success is returned with zero batches, so the three
  items are lost; with B = 0 the division at line 120 faults.
\<close>

theorem enqueueItems_nonpositive_batch_size:
  "enqueueItems (exampleEnv okClient) \<lparr>SQSUrl = ''q''\<rparr>
      \<lparr>Items = [''1'', ''2'', ''3''], BatchSize_items = - 1\<rparr> [] 0 = ([], 0, Returns (0, None))
   \<and> itemSlices \<lparr>Items = [''1'', ''2'', ''3''], BatchSize_items = - 1\<rparr> = []
   \<and> enqueueItems (exampleEnv okClient) \<lparr>SQSUrl = ''q''\<rparr>
      \<lparr>Items = [''1'', ''2'', ''3''], BatchSize_items = 0\<rparr> [] 0 = ([], 0, Panics IntegerDivideByZero)"
  by (simp add: enqueueItems_def enqueueItemsFrom_def itemBatchCount_def go_div_def go_mod_def
      enqueueItemsLoop.simps Flush_def newUploader_def itemSlices_def)

section \<open>Properties of the enqueue driver\<close>

text \<open>
  The orchestrators talk to the queue through the uploader only: none of them makes a
  single-message send.
\<close>

lemma sendOf_not_single: "list_all (sendOf es) new \<Longrightarrow> filter isSendMessage new = []"
  by (induction new) (auto simp: sendOf_def split: sqs_call.splits)

lemma Flush_sendMessageCalls:
  "Flush u w = (u', w', r) \<Longrightarrow> sendMessageCalls w' = sendMessageCalls w"
  by (drule Flush_shape) (auto simp: sendMessageCalls_def dest: sendOf_not_single)

lemma AddToBatch_sendMessageCalls:
  assumes "AddToBatch u w ident body = (u', w', r)"
  shows "sendMessageCalls w' = sendMessageCalls w"
proof (cases "int (length body) > messageSizeLimit")
  case True
  with assms show ?thesis by (auto simp: AddToBatch_def)
next
  case False
  define pre where "pre = (if int (length body) + totalBytes u > messageSizeLimit
                  \<or> int (length (messageList u)) = maxMessagesPerBatch
               then Flush u w else (u, w, None))"
  obtain u1 w1 r1 where pre: "pre = (u1, w1, r1)" by (cases pre)
  have "sendMessageCalls w1 = sendMessageCalls w"
    using pre Flush_sendMessageCalls [of u w u1 w1 r1] by (auto simp: pre_def split: if_splits)
  moreover have "w' = w1"
    using assms False pre
    by (auto simp: AddToBatch_def Let_def pre_def [symmetric] split: option.splits)
  ultimately show ?thesis by simp
qed

lemma addJSONObjectsToQueue_sendMessageCalls:
  "addJSONObjectsToQueue env u w n jb = (u', w', n', r) \<Longrightarrow> sendMessageCalls w' = sendMessageCalls w"
  by (auto simp: addJSONObjectsToQueue_def split: option.splits prod.splits
           dest: AddToBatch_sendMessageCalls)

lemma addS3PathsToQueue_sendMessageCalls:
  "addS3PathsToQueue env u w n pl = (u', w', n', r) \<Longrightarrow> sendMessageCalls w' = sendMessageCalls w"
  by (auto simp: addS3PathsToQueue_def split: option.splits prod.splits
           dest: AddToBatch_sendMessageCalls)

declare decodeLoop.simps [simp del]

lemma decodeLoop_sendMessageCalls:
  "decodeLoop env st dec = (st', r) \<Longrightarrow> sendMessageCalls (ing_sqs st') = sendMessageCalls (ing_sqs st)"
proof (induction env st dec arbitrary: st' r rule: decodeLoop.induct)
  case (1 env st dec)
  show ?case
  proof (cases "Decode dec")
    case (Decoded doc rest)
    show ?thesis
    proof (cases "int (length doc) > messageSizeLimit")
      case True
      with Decoded "1.prems" show ?thesis by (auto simp: decodeLoop.simps [of env st dec])
    next
      case small: False
      define st1 where "st1 = st\<lparr>itemIndex := itemIndex st + 1,
                          jsonMessageList := Add (jsonMessageList st) doc\<rparr>"
      show ?thesis
      proof (cases "Length (jsonMessageList st1) = BatchSize (jsonMessageList st1)")
        case False
        with Decoded small "1.prems" have "decodeLoop env st1 rest = (st', r)"
          by (simp add: decodeLoop.simps [of env st dec] st1_def Let_def)
        from "1.IH"(2) [OF Decoded small st1_def False this] show ?thesis by (simp add: st1_def)
      next
        case True
        obtain u' w' n' x where a: "addJSONObjectsToQueue env (ing_uploader st1) (ing_sqs st1) (ing_drawn st1)
                      (jsonMessageList st1) = (u', w', n', x)"
          by (cases "addJSONObjectsToQueue env (ing_uploader st1) (ing_sqs st1) (ing_drawn st1)
                      (jsonMessageList st1)") auto
        from addJSONObjectsToQueue_sendMessageCalls [OF a]
        have w: "sendMessageCalls w' = sendMessageCalls (ing_sqs st)" by (simp add: st1_def)
        show ?thesis
        proof (cases x)
          case (Panics p)
          with Decoded small True a "1.prems" w show ?thesis
            by (auto simp: decodeLoop.simps [of env st dec] st1_def [symmetric] Let_def)
        next
          case (Returns e)
          show ?thesis
          proof (cases e)
            case (Some err)
            with Returns Decoded small True a "1.prems" w show ?thesis
              by (auto simp: decodeLoop.simps [of env st dec] st1_def [symmetric] Let_def)
          next
            case None
            with Returns Decoded small True a "1.prems"
            have rec: "decodeLoop env (st1\<lparr>ing_uploader := u', ing_sqs := w', ing_drawn := n',
                          jsonMessageList := Clear (jsonMessageList st1)\<rparr>) rest = (st', r)"
              by (simp add: decodeLoop.simps [of env st dec] st1_def [symmetric] Let_def)
            from "1.IH"(1) [OF Decoded small st1_def True a [symmetric] refl refl _ _ rec] Returns None w
            show ?thesis by simp
          qed
        qed
      qed
    qed
  qed (use "1.prems" in \<open>auto simp: decodeLoop.simps [of env st dec]\<close>)
qed


lemma chunkCallback_sendMessageCalls:
  "chunkCallback env st chunk isLast = (st', r) \<Longrightarrow>
     sendMessageCalls (ing_sqs st') = sendMessageCalls (ing_sqs st)"
  by (auto simp: chunkCallback_def streamJSONToQueue_def
           split: prod.splits outcome.splits option.splits if_splits
           dest!: decodeLoop_sendMessageCalls)

lemma S3FileIterator_preserves:
  assumes "\<And>st chunk isLast st' r. fn st chunk isLast = (st', r) \<Longrightarrow> f st' = f st"
  shows "S3FileIterator fn st chunks = (st', r) \<Longrightarrow> f st' = f st"
proof (induction chunks arbitrary: st)
  case Nil
  then show ?case by simp
next
  case (Cons chunk chunks)
  obtain st1 r1 where c: "fn st chunk (chunks = []) = (st1, r1)"
    by (cases "fn st chunk (chunks = [])")
  from assms [OF c] have f1: "f st1 = f st" .
  from Cons.prems c f1 Cons.IH [of st1] show ?case
    by (auto split: outcome.splits option.splits if_splits prod.splits)
qed

lemma s3IteratorFromLister_preserves:
  assumes "\<And>st bucket key st' r. fn st bucket key = (st', r) \<Longrightarrow> f st' = f st"
  shows "s3IteratorFromLister (objs, listErr) fn st = (st', r) \<Longrightarrow> f st' = f st"
proof (induction objs arbitrary: st)
  case Nil
  then show ?case by simp
next
  case (Cons obj objs)
  obtain bucket key where o: "obj = (bucket, key)" by (cases obj)
  obtain st1 r1 where c: "fn st bucket key = (st1, r1)" by (cases "fn st bucket key")
  from assms [OF c] have f1: "f st1 = f st" .
  from Cons.prems o c f1 Cons.IH [of st1] show ?case
    by (auto split: outcome.splits option.splits if_splits prod.splits)
qed

lemma fileCallback_sendMessageCalls:
  assumes "fileCallback env st bucket key = (st', r)"
  shows "sendMessageCalls (ing_sqs st') = sendMessageCalls (ing_sqs st)"
proof -
  obtain st1 r1 where it: "S3FileIterator (chunkCallback env) (st\<lparr>itemIndex := 0\<rparr>)
      (S3FileChunks env bucket key) = (st1, r1)"
    by (cases "S3FileIterator (chunkCallback env) (st\<lparr>itemIndex := 0\<rparr>) (S3FileChunks env bucket key)")
  have "sendMessageCalls (ing_sqs st1) = sendMessageCalls (ing_sqs (st\<lparr>itemIndex := 0\<rparr>))"
    by (rule S3FileIterator_preserves [OF _ it]) (rule chunkCallback_sendMessageCalls)
  with assms it show ?thesis
    by (auto simp: fileCallback_def Let_def split: outcome.splits option.splits)
qed

lemma enqueueS3FileContentsFrom_sendMessageCalls:
  assumes "enqueueS3FileContentsFrom env u0 files w n = (w', n', r)"
  shows "sendMessageCalls w' = sendMessageCalls w"
proof (cases "BatchSize_files files < 0")
  case True
  with assms show ?thesis by (simp add: enqueueS3FileContentsFrom_def)
next
  case False
  define st0 where "st0 = \<lparr>ing_uploader = u0, ing_sqs = w, ing_drawn = n, bytesBuffer = [],
                jsonMessageList = \<lparr>BatchSize = BatchSize_files files, messageList_json = []\<rparr>,
                itemIndex = 0\<rparr>"
  obtain objs listErr where l: "S3Lister_files files = (objs, listErr)"
    by (cases "S3Lister_files files")
  obtain st r1 where it: "s3IteratorFromLister (objs, listErr) (fileCallback env) st0 = (st, r1)"
    by (cases "s3IteratorFromLister (objs, listErr) (fileCallback env) st0")
  have "sendMessageCalls (ing_sqs st) = sendMessageCalls (ing_sqs st0)"
    by (rule s3IteratorFromLister_preserves
          [where f = "\<lambda>st. sendMessageCalls (ing_sqs st)", OF _ it])
       (rule fileCallback_sendMessageCalls)
  then have w1: "sendMessageCalls (ing_sqs st) = sendMessageCalls w"
    by (simp add: st0_def)
  define post where "post = (if Length (jsonMessageList st) \<noteq> 0
                   then addJSONObjectsToQueue env (ing_uploader st) (ing_sqs st) (ing_drawn st)
                          (jsonMessageList st)
                   else (ing_uploader st, ing_sqs st, ing_drawn st, Returns None))"
  obtain u1 w1 n1 r2 where post: "post = (u1, w1, n1, r2)" by (cases post) auto
  have w2: "sendMessageCalls w1 = sendMessageCalls w"
    using post w1 addJSONObjectsToQueue_sendMessageCalls [of env "ing_uploader st" "ing_sqs st" "ing_drawn st" "jsonMessageList st" u1 w1 n1 r2]
    by (auto simp: post_def split: if_splits)
  obtain u2 w2 r3 where fl: "Flush u1 w1 = (u2, w2, r3)" by (cases "Flush u1 w1")
  from Flush_sendMessageCalls [OF fl] w2 have w3: "sendMessageCalls w2 = sendMessageCalls w" by simp
  from assms False l it post fl w1 w2 w3 show ?thesis
    by (auto simp: enqueueS3FileContentsFrom_def st0_def [symmetric] post_def [symmetric]
             split: outcome.splits option.splits)
qed

lemma pathCallback_sendMessageCalls:
  "pathCallback env b st bucket key = (st', r) \<Longrightarrow>
     sendMessageCalls (sqs_p st') = sendMessageCalls (sqs_p st)"
  by (auto simp: pathCallback_def Let_def
           split: if_splits prod.splits outcome.splits option.splits
           dest!: addS3PathsToQueue_sendMessageCalls)

lemma enqueueS3PathsFrom_sendMessageCalls:
  assumes "enqueueS3PathsFrom env u0 lister w n = (w', n', r)"
  shows "sendMessageCalls w' = sendMessageCalls w"
proof -
  define st0 where "st0 = \<lparr>s3PathList = [], uploader_p = u0, sqs_p = w, drawn_p = n\<rparr>"
  obtain objs listErr where l: "S3Lister_paths lister = (objs, listErr)"
    by (cases "S3Lister_paths lister")
  obtain st r1 where it: "s3IteratorFromLister (objs, listErr)
      (pathCallback env (BatchSize_paths lister)) st0 = (st, r1)"
    by (cases "s3IteratorFromLister (objs, listErr) (pathCallback env (BatchSize_paths lister)) st0")
  have "sendMessageCalls (sqs_p st) = sendMessageCalls (sqs_p st0)"
    by (rule s3IteratorFromLister_preserves
          [where f = "\<lambda>st. sendMessageCalls (sqs_p st)", OF _ it])
       (rule pathCallback_sendMessageCalls)
  then have w1: "sendMessageCalls (sqs_p st) = sendMessageCalls w"
    by (simp add: st0_def)
  define post where "post = (if s3PathList st \<noteq> []
                 then addS3PathsToQueue env (uploader_p st) (sqs_p st) (drawn_p st) (s3PathList st)
                 else (uploader_p st, sqs_p st, drawn_p st, Returns None))"
  obtain u1 w1 n1 r2 where post: "post = (u1, w1, n1, r2)" by (cases post) auto
  have w2: "sendMessageCalls w1 = sendMessageCalls w"
    using post w1 addS3PathsToQueue_sendMessageCalls [of env "uploader_p st" "sqs_p st" "drawn_p st" "s3PathList st" u1 w1 n1 r2]
    by (auto simp: post_def split: if_splits)
  obtain u2 w2 r3 where fl: "Flush u1 w1 = (u2, w2, r3)" by (cases "Flush u1 w1")
  from Flush_sendMessageCalls [OF fl] w2 have w3: "sendMessageCalls w2 = sendMessageCalls w" by simp
  from assms l it post fl w1 w2 w3 show ?thesis
    by (auto simp: enqueueS3PathsFrom_def st0_def [symmetric] post_def [symmetric]
             split: outcome.splits option.splits)
qed

lemma enqueueItemsLoop_sendMessageCalls:
  "enqueueItemsLoop env itemList batchCount i u w n = (u', w', n', r) \<Longrightarrow>
     sendMessageCalls w' = sendMessageCalls w"
proof (induction env itemList batchCount i u w n arbitrary: u' w' n' r rule: enqueueItemsLoop.induct)
  case (1 env itemList batchCount i uploader w n)
  show ?case
  proof (cases "i < batchCount")
    case False
    with "1.prems" show ?thesis by (simp add: enqueueItemsLoop.simps)
  next
    case True
    let ?min = "sliceMin (BatchSize_items itemList) i"
    let ?max = "sliceMax (int (length (Items itemList))) (BatchSize_items itemList) i"
    show ?thesis
    proof (cases "goSlice (Items itemList) ?min ?max")
      case None
      with True "1.prems" show ?thesis
        by (simp add: enqueueItemsLoop.simps [of env itemList batchCount i] Let_def)
    next
      case (Some items)
      show ?thesis
      proof (cases "marshalItems env items")
        case None
        with True Some "1.prems" show ?thesis
          by (simp add: enqueueItemsLoop.simps [of env itemList batchCount i] Let_def)
      next
        case js: (Some jsonBytes)
        obtain u1 w1 r1 where a: "AddToBatch uploader w (randomID env n) jsonBytes = (u1, w1, r1)"
          by (cases "AddToBatch uploader w (randomID env n) jsonBytes")
        note w1 = AddToBatch_sendMessageCalls [OF a]
        show ?thesis
        proof (cases "r1 = Returns None")
          case False
          with True Some js a "1.prems" w1 show ?thesis
            by (auto simp: enqueueItemsLoop.simps [of env itemList batchCount i] Let_def
                     split: outcome.splits option.splits)
        next
          case ok: True
          with True Some js a "1.prems"
          have rec: "enqueueItemsLoop env itemList batchCount (i + 1) u1 w1 (Suc n) = (u', w', n', r)"
            by (simp add: enqueueItemsLoop.simps [of env itemList batchCount i] Let_def)
          from "1.IH" [OF True refl refl Some js a [symmetric] refl ok refl rec] w1
          show ?thesis by simp
        qed
      qed
    qed
  qed
qed

lemma enqueueItemsFrom_sendMessageCalls:
  assumes "enqueueItemsFrom env u0 itemList w n = (w', n', r)"
  shows "sendMessageCalls w' = sendMessageCalls w"
proof (cases "BatchSize_items itemList = 0")
  case True
  with assms show ?thesis by (simp add: enqueueItemsFrom_def)
next
  case False
  let ?bc = "itemBatchCount (int (length (Items itemList))) (BatchSize_items itemList)"
  obtain u1 w1 n1 r1 where l: "enqueueItemsLoop env itemList ?bc 0 u0 w n = (u1, w1, n1, r1)"
    by (cases "enqueueItemsLoop env itemList ?bc 0 u0 w n") auto
  note w1 = enqueueItemsLoop_sendMessageCalls [OF l]
  obtain u2 w2 r3 where fl: "Flush u1 w1 = (u2, w2, r3)" by (cases "Flush u1 w1")
  from Flush_sendMessageCalls [OF fl] w1 have w3: "sendMessageCalls w2 = sendMessageCalls w" by simp
  from assms False l fl w1 w3 show ?thesis
    by (auto simp: enqueueItemsFrom_def Let_def split: outcome.splits option.splits)
qed

lemma selectedOrchestrator_sendMessageCalls:
  "selectedOrchestrator env jobSpec submission w n = (w', n', r) \<Longrightarrow>
     sendMessageCalls w' = sendMessageCalls w"
  by (auto simp: selectedOrchestrator_def enqueueItems_def enqueueS3Paths_def
        enqueueS3FileContents_def split: option.splits
        dest: enqueueItemsFrom_sendMessageCalls enqueueS3PathsFrom_sendMessageCalls
          enqueueS3FileContentsFrom_sendMessageCalls)

text \<open>
  Claim C10.  The job-complete message has the fixed body \<open>"job_complete"\<close> (with its
  quotes) and the random name as its identity.  It is sent with a single-message send,
  which no orchestrator uses, exactly once and as the last request, when the initial
  liveness update and the selected orchestrator have succeeded; the batch count is
  returned when that send succeeds.  When the orchestrator returns an error, the driver
  returns that error with count 0, and the requests made are the orchestrator's: the
  batches already sent, and no job-complete message.
\<close>

theorem enqueue_sends_job_complete_once_on_success:
  assumes "selectedOrchestrator env jobSpec submission w n = (w1, n1, r1)"
  shows "sendMessageCalls w1 = sendMessageCalls w
     \<and> sendMessageCalls (fst (enqueue env jobSpec submission w n)) =
         sendMessageCalls w @
           (if livenessResult env = None \<and> (\<exists>totalBatches. r1 = Returns (totalBatches, None))
            then [SendMessageCall (jobCompleteMessage env jobSpec)
                    (SendMessage (AWS env) (length w1) (jobCompleteMessage env jobSpec))]
            else [])
     \<and> (livenessResult env = None \<and> r1 = Returns (totalBatches, None) \<longrightarrow>
          fst (enqueue env jobSpec submission w n) =
            w1 @ [SendMessageCall (jobCompleteMessage env jobSpec)
                    (SendMessage (AWS env) (length w1) (jobCompleteMessage env jobSpec))]
          \<and> (SendMessage (AWS env) (length w1) (jobCompleteMessage env jobSpec) = None \<longrightarrow>
               snd (snd (enqueue env jobSpec submission w n)) = Returns (totalBatches, None)))
     \<and> (livenessResult env = None \<and> r1 = Returns (totalBatches, Some err) \<longrightarrow>
          enqueue env jobSpec submission w n = (w1, n1, Returns (0, Some err)))
     \<and> InputMessageBody (jobCompleteMessage env jobSpec) = [CHR 0x22] @ ''job_complete'' @ [CHR 0x22]
     \<and> InputMessageDeduplicationId (jobCompleteMessage env jobSpec) = RandomName env
     \<and> InputMessageGroupId (jobCompleteMessage env jobSpec) = RandomName env"
proof -
  note same = selectedOrchestrator_sendMessageCalls [OF assms]
  have count: "sendMessageCalls (fst (enqueue env jobSpec submission w n)) =
         sendMessageCalls w @
           (if livenessResult env = None \<and> (\<exists>totalBatches. r1 = Returns (totalBatches, None))
            then [SendMessageCall (jobCompleteMessage env jobSpec)
                    (SendMessage (AWS env) (length w1) (jobCompleteMessage env jobSpec))]
            else [])"
    using assms same
    by (auto simp: enqueue_def sendMessageCalls_def split: option.splits outcome.splits)
  have ok: "fst (enqueue env jobSpec submission w n) =
            w1 @ [SendMessageCall (jobCompleteMessage env jobSpec)
                    (SendMessage (AWS env) (length w1) (jobCompleteMessage env jobSpec))]
          \<and> (SendMessage (AWS env) (length w1) (jobCompleteMessage env jobSpec) = None \<longrightarrow>
               snd (snd (enqueue env jobSpec submission w n)) = Returns (totalBatches, None))"
    if "livenessResult env = None \<and> r1 = Returns (totalBatches, None)"
    using that assms by (auto simp: enqueue_def split: option.splits)
  have err: "enqueue env jobSpec submission w n = (w1, n1, Returns (0, Some err))"
    if "livenessResult env = None \<and> r1 = Returns (totalBatches, Some err)"
    using that assms by (auto simp: enqueue_def)
  from same count ok err show ?thesis
    by (simp add: jobCompleteMessage_def)
qed

theorem enqueue_sends_job_complete_once_on_success_witness:
  "selectedOrchestrator (exampleEnv okClient) \<lparr>SQSUrl = ''q''\<rparr>
      \<lparr>ItemList = Some \<lparr>Items = [], BatchSize_items = 2\<rparr>, FilePathLister = None,
       DelimitedFiles = None\<rparr> [] 0 = ([], 0, Returns (0, None))
   \<and> fst (enqueue (exampleEnv okClient) \<lparr>SQSUrl = ''q''\<rparr>
      \<lparr>ItemList = Some \<lparr>Items = [], BatchSize_items = 2\<rparr>, FilePathLister = None,
       DelimitedFiles = None\<rparr> [] 0) =
       [SendMessageCall (jobCompleteMessage (exampleEnv okClient) \<lparr>SQSUrl = ''q''\<rparr>) None]
   \<and> snd (snd (enqueue (exampleEnv okClient) \<lparr>SQSUrl = ''q''\<rparr>
      \<lparr>ItemList = Some \<lparr>Items = [], BatchSize_items = 2\<rparr>, FilePathLister = None,
       DelimitedFiles = None\<rparr> [] 0)) = Returns (0, None)
   \<and> selectedOrchestrator (exampleEnv okClient) \<lparr>SQSUrl = ''q''\<rparr>
      \<lparr>ItemList = Some \<lparr>Items = [replicate 262145 (CHR ''7'')], BatchSize_items = 1\<rparr>,
       FilePathLister = None, DelimitedFiles = None\<rparr> [] 0 =
       ([], 1, Returns (0, Some (Wrap (ErrorMessageExceedsMaxSize 262147 messageSizeLimit)
                                   (ItemsBetweenCtx 0 1))))
   \<and> enqueue (exampleEnv okClient) \<lparr>SQSUrl = ''q''\<rparr>
      \<lparr>ItemList = Some \<lparr>Items = [replicate 262145 (CHR ''7'')], BatchSize_items = 1\<rparr>,
       FilePathLister = None, DelimitedFiles = None\<rparr> [] 0 =
       ([], 1, Returns (0, Some (Wrap (ErrorMessageExceedsMaxSize 262147 messageSizeLimit)
                                   (ItemsBetweenCtx 0 1))))"
proof -
  let ?E = "exampleEnv okClient"
  let ?J = "\<lparr>SQSUrl = ''q''\<rparr>"
  let ?S1 = "\<lparr>ItemList = Some \<lparr>Items = [], BatchSize_items = 2\<rparr>, FilePathLister = None,
       DelimitedFiles = None\<rparr> :: string JobSubmission"
  let ?S2 = "\<lparr>ItemList = Some \<lparr>Items = [replicate 262145 (CHR ''7'')], BatchSize_items = 1\<rparr>,
       FilePathLister = None, DelimitedFiles = None\<rparr> :: string JobSubmission"
  let ?e = "Wrap (ErrorMessageExceedsMaxSize 262147 messageSizeLimit) (ItemsBetweenCtx 0 1)"
  have o1: "selectedOrchestrator ?E ?J ?S1 [] 0 = ([], 0, Returns (0, None))"
    by (simp add: selectedOrchestrator_def enqueueItems_def enqueueItemsFrom_def
        itemBatchCount_def go_div_def go_mod_def enqueueItemsLoop.simps Flush_def newUploader_def)
  have o2: "selectedOrchestrator ?E ?J ?S2 [] 0 = ([], 1, Returns (0, Some ?e))"
    by (simp add: selectedOrchestrator_def enqueueItems_def enqueueItemsFrom_def
        itemBatchCount_def go_div_def go_mod_def enqueueItemsLoop.simps [of _ _ _ 0]
        sliceMin_def sliceMax_def goSlice_def exampleEnv_def marshalRaw_def
        AddToBatch_def messageSizeLimit_def newUploader_def)
  have live: "livenessResult ?E = None" by (simp add: exampleEnv_def)
  have resp: "SendMessage (AWS ?E) (length ([] :: world)) (jobCompleteMessage ?E ?J) = None"
    by (simp add: exampleEnv_def okClient_def)
  from enqueue_sends_job_complete_once_on_success [OF o1, of 0] live resp
  have s1: "fst (enqueue ?E ?J ?S1 [] 0) = [SendMessageCall (jobCompleteMessage ?E ?J) None]"
    and s2: "snd (snd (enqueue ?E ?J ?S1 [] 0)) = Returns (0, None)"
    by simp_all
  from enqueue_sends_job_complete_once_on_success [OF o2, of 0 ?e] live
  have s3: "enqueue ?E ?J ?S2 [] 0 = ([], 1, Returns (0, Some ?e))"
    by simp
  from o1 s1 s2 o2 s3 show ?thesis by simp
qed

section \<open>Properties of the stream decoder\<close>

lemma nonSpace_iff: "nonSpace x = (\<not> spaces x)"
  by (auto simp: nonSpace_def spaces_def list_all_iff)

lemma scanValue_append:
  "scanValue s (x @ y) n =
     (case scanValue s x n of Exhausted s' \<Rightarrow> scanValue s' y (n + length x) | r \<Rightarrow> r)"
proof (induction x arbitrary: s n)
  case Nil
  then show ?case by simp
next
  case (Cons c x)
  obtain s' code where st: "scannerStep s c = (s', code)" by (cases "scannerStep s c")
  obtain s'' code' where ev: "stateEndValue s' (CHR '' '') = (s'', code')"
    by (cases "stateEndValue s' (CHR '' '')")
  from st ev Cons.IH show ?case
    by (cases code) (simp_all split: scan_result.splits)
qed

lemma scanValue_spaces:
  "spaces x \<Longrightarrow> scanValue scanner_reset x n = Exhausted scanner_reset"
proof (induction x arbitrary: n)
  case Nil
  then show ?case by simp
next
  case (Cons c x)
  then have "isSpace c" "spaces x" by (simp_all add: spaces_def)
  then have "scannerStep scanner_reset c = (scanner_reset, scanSkipSpace)"
    by (simp add: scannerStep_def scanner_reset_def stateBeginValue_def pushParseState_def Let_def)
  with Cons.IH [OF \<open>spaces x\<close>] show ?case by simp
qed

lemma scanValue_shift:
  "scanValue s x (n + k) = (case scanValue s x n of ValueEnd m \<Rightarrow> ValueEnd (m + k) | r \<Rightarrow> r)"
proof (induction x arbitrary: s n)
  case Nil
  then show ?case by simp
next
  case (Cons c x)
  obtain s' code where st: "scannerStep s c = (s', code)" by (cases "scannerStep s c")
  obtain s'' code' where ev: "stateEndValue s' (CHR '' '') = (s'', code')"
    by (cases "stateEndValue s' (CHR '' '')")
  from st ev Cons.IH [of _ "Suc n"] show ?case
    by (cases code) (simp_all split: scan_result.splits)
qed

text \<open>A value is never complete before its first non-space byte has been read.\<close>

lemma scanValue_reset_nonspace:
  assumes "scanValue scanner_reset (c # cs) n = ValueEnd m" and "\<not> isSpace c"
  shows "n < m"
proof -
  obtain s' code where st: "scannerStep scanner_reset c = (s', code)"
    by (cases "scannerStep scanner_reset c")
  then have code: "code \<noteq> scanEnd \<and> code \<noteq> scanEndObject \<and> code \<noteq> scanEndArray"
    by (auto simp: scannerStep_def scanner_reset_def stateBeginValue_def pushParseState_def Let_def scanner_error_def
        split: if_splits)
  with assms st show ?thesis
    by (cases code) (auto dest!: scanValue_le)
qed

lemma dropWhile_spaces_append: "spaces p \<Longrightarrow> dropWhile isSpace (p @ z) = dropWhile isSpace z"
  by (induction p) (simp_all add: spaces_def)

lemma spaces_split: "\<exists>p z. x = p @ z \<and> spaces p \<and> (z = [] \<or> \<not> isSpace (hd z))"
proof (intro exI conjI)
  show "x = takeWhile isSpace x @ dropWhile isSpace x" by simp
  show "spaces (takeWhile isSpace x)"
    by (auto simp: spaces_def list_all_iff dest: set_takeWhileD)
  show "dropWhile isSpace x = [] \<or> \<not> isSpace (hd (dropWhile isSpace x))"
    using hd_dropWhile [of isSpace x] by blast
qed

lemma readValue_spaces_prefix:
  assumes "spaces p"
  shows "readValue (p @ z) =
          (case readValue z of ReadValue n \<Rightarrow> ReadValue (n + length p) | r \<Rightarrow> r)"
proof -
  have "scanValue scanner_reset (p @ z) 0 = scanValue scanner_reset z (0 + length p)"
    using assms by (simp add: scanValue_append scanValue_spaces)
  also have "\<dots> = (case scanValue scanner_reset z 0 of ValueEnd m \<Rightarrow> ValueEnd (m + length p) | r \<Rightarrow> r)"
    by (rule scanValue_shift)
  finally have sv: "scanValue scanner_reset (p @ z) 0 =
      (case scanValue scanner_reset z 0 of ValueEnd m \<Rightarrow> ValueEnd (m + length p) | r \<Rightarrow> r)" .
  have ns: "nonSpace (p @ z) = nonSpace z"
    using assms by (auto simp: nonSpace_def spaces_def list_all_iff)
  show ?thesis
    by (cases "scanValue scanner_reset z 0") (simp_all add: readValue_def sv ns)
qed

lemma Decode_spaces_prefix: "spaces p \<Longrightarrow> Decode (p @ z) = Decode z"
  by (cases "readValue z")
     (simp_all add: Decode_def readValue_spaces_prefix dropWhile_spaces_append add.commute)

lemma firstByte_snoc: "firstByte (seen @ [c]) = snocByte (firstByte seen) c"
proof (cases "dropWhile isSpace seen")
  case Nil
  then have sp: "spaces seen" by (simp add: spaces_def list_all_iff dropWhile_eq_Nil_conv)
  have a: "dropWhile isSpace (seen @ [c]) = dropWhile isSpace [c]"
    using dropWhile_spaces_append [OF sp] by simp
  have "firstByte seen = None" unfolding firstByte_def Nil by simp
  moreover have "firstByte (seen @ [c]) = (if isSpace c then None else Some c)"
    unfolding firstByte_def a by simp
  ultimately show ?thesis by (simp add: snocByte_def)
next
  case (Cons a as)
  then have "\<exists>b \<in> set seen. \<not> isSpace b"
    by (metis dropWhile_eq_Nil_conv list.distinct(1))
  then obtain b where "b \<in> set seen" "\<not> isSpace b" by blast
  then have "dropWhile isSpace (seen @ [c]) = dropWhile isSpace seen @ [c]"
    by (rule dropWhile_append1)
  with Cons show ?thesis by (simp add: firstByte_def snocByte_def)
qed

lemma char_facts:
  "isDigit19 c \<Longrightarrow> isDigit c"
  "isDigit c \<Longrightarrow> \<not> isSpace c"
  "isDigit (CHR ''0'')"
  "\<not> isSpace (CHR ''-'')"
  "\<not> isSpace (CHR ''0'')"
  by (auto simp: isDigit_def isDigit19_def isSpace_def)

lemma numFirst_snoc:
  "numFirst fb \<Longrightarrow> numFirst (snocByte fb c)"
  "isDigit c \<Longrightarrow> numFirst (snocByte None c)"
  "numFirst (snocByte None (CHR ''-''))"
  "isSpace c \<Longrightarrow> snocByte None c = None"
  by (auto simp: numFirst_def snocByte_def numStart_def char_facts split: option.splits)

lemmas state_defs =
  stateBeginValueOrEmpty_def stateBeginValue_def pushParseState_def Let_def stateBeginStringOrEmpty_def
  stateBeginString_def stateEndValue_def stateEndTop_def stateInString_def
  stateInStringEsc_def stateNeg_def state1_def state0_def stateDot0_def stateE_def
  stateESign_def stateE0_def expect_def scanner_error_def popParseState_def

lemma topInv_top:
  assumes "parseState s = []" and "topInv s fb" and "scannerStep s c = (s', code)"
  shows "topInv s' (snocByte fb c)"
proof (cases "step s")
  case StateBeginValue
  with assms have fb: "fb = None" by (simp add: topInv_def)
  from assms(1,3) StateBeginValue show ?thesis
    unfolding fb topInv_def scannerStep_def stateBeginValue_def pushParseState_def Let_def scanner_error_def
    by (auto simp: isNumState_def isBeginInner_def numFirst_snoc char_facts split: if_splits)
next
  case StateEndValue
  with assms show ?thesis
    by (auto simp: topInv_def scannerStep_def stateEndValue_def stateEndTop_def
        isNumState_def isBeginInner_def split: if_splits)
next
  case StateEndTop
  with assms show ?thesis
    by (auto simp: topInv_def scannerStep_def stateEndTop_def
        isNumState_def isBeginInner_def split: if_splits)
next
  case StateBeginValueOrEmpty
  with assms show ?thesis by (simp add: topInv_def isBeginInner_def)
next
  case StateBeginStringOrEmpty
  with assms show ?thesis by (simp add: topInv_def isBeginInner_def)
next
  case StateBeginString
  with assms show ?thesis by (simp add: topInv_def isBeginInner_def)
next
  case StateInString
  with assms show ?thesis
    by (auto simp: topInv_def scannerStep_def stateInString_def scanner_error_def
        isNumState_def isBeginInner_def split: if_splits)
next
  case StateInStringEsc
  with assms show ?thesis
    by (auto simp: topInv_def scannerStep_def stateInStringEsc_def scanner_error_def
        isNumState_def isBeginInner_def split: if_splits)
next
  case StateNeg
  with assms show ?thesis
    by (auto simp: topInv_def scannerStep_def stateNeg_def scanner_error_def
        isNumState_def isBeginInner_def numFirst_snoc split: if_splits)
next
  case State1
  with assms show ?thesis
    by (auto simp: topInv_def scannerStep_def state1_def state0_def stateEndValue_def
        stateEndTop_def isNumState_def isBeginInner_def numFirst_snoc split: if_splits)
next
  case State0
  with assms show ?thesis
    by (auto simp: topInv_def scannerStep_def state0_def stateEndValue_def
        stateEndTop_def isNumState_def isBeginInner_def numFirst_snoc split: if_splits)
next
  case StateDot0
  with assms show ?thesis
    by (auto simp: topInv_def scannerStep_def stateDot0_def stateEndValue_def
        stateEndTop_def isNumState_def isBeginInner_def numFirst_snoc split: if_splits)
next
  case StateE
  with assms show ?thesis
    by (auto simp: topInv_def scannerStep_def stateE_def stateESign_def expect_def
        scanner_error_def isNumState_def isBeginInner_def numFirst_snoc split: if_splits)
next
  case StateESign
  with assms show ?thesis
    by (auto simp: topInv_def scannerStep_def stateESign_def expect_def
        scanner_error_def isNumState_def isBeginInner_def numFirst_snoc split: if_splits)
next
  case StateE0
  with assms show ?thesis
    by (auto simp: topInv_def scannerStep_def stateE0_def stateEndValue_def
        stateEndTop_def isNumState_def isBeginInner_def numFirst_snoc split: if_splits)
qed (use assms in \<open>auto simp: topInv_def scannerStep_def expect_def scanner_error_def
        isNumState_def isBeginInner_def numFirst_snoc split: if_splits\<close>)

text \<open>With a value open on the stack, the stack empties only by closing it, which leaves
  the scanner waiting at the top level.\<close>

lemma stateEndValue_nested:
  assumes "parseState s \<noteq> []" and "stateEndValue s c = (s', code)"
  shows "parseState s' \<noteq> [] \<or> step s' = StateEndTop \<or> step s' = StateError"
  using assms
  by (cases "parseState s")
     (auto simp: stateEndValue_def scanner_error_def popParseState_def Let_def
        split: if_splits parse_state.splits)

lemma scannerStep_nested:
  assumes "parseState s \<noteq> []" and "scannerStep s c = (s', code)"
  shows "parseState s' \<noteq> [] \<or> step s' = StateEndTop \<or> step s' = StateError"
proof (cases "step s")
  case StateBeginValueOrEmpty
  with assms show ?thesis
    using stateEndValue_nested [OF assms(1), of c s' code]
    by (auto simp: scannerStep_def stateBeginValueOrEmpty_def stateBeginValue_def pushParseState_def Let_def
        scanner_error_def split: if_splits)
next
  case StateBeginValue
  with assms show ?thesis
    by (auto simp: scannerStep_def stateBeginValue_def pushParseState_def Let_def scanner_error_def split: if_splits)
next
  case StateBeginStringOrEmpty
  with assms show ?thesis
    using stateEndValue_nested [of "s\<lparr>parseState := parseObjectValue # tl (parseState s)\<rparr>" c s' code]
    by (auto simp: scannerStep_def stateBeginStringOrEmpty_def stateBeginString_def
        scanner_error_def split: if_splits)
next
  case StateBeginString
  with assms show ?thesis
    by (auto simp: scannerStep_def stateBeginString_def scanner_error_def split: if_splits)
next
  case StateEndValue
  with assms show ?thesis
    using stateEndValue_nested [OF assms(1), of c s' code] by (simp add: scannerStep_def)
next
  case StateEndTop
  with assms show ?thesis
    by (auto simp: scannerStep_def stateEndTop_def split: if_splits)
next
  case StateInString
  with assms show ?thesis
    by (auto simp: scannerStep_def stateInString_def scanner_error_def split: if_splits)
next
  case StateInStringEsc
  with assms show ?thesis
    by (auto simp: scannerStep_def stateInStringEsc_def scanner_error_def split: if_splits)
next
  case StateNeg
  with assms show ?thesis
    by (auto simp: scannerStep_def stateNeg_def scanner_error_def split: if_splits)
next
  case State1
  with assms show ?thesis
    using stateEndValue_nested [OF assms(1), of c s' code]
    by (auto simp: scannerStep_def state1_def state0_def split: if_splits)
next
  case State0
  with assms show ?thesis
    using stateEndValue_nested [OF assms(1), of c s' code]
    by (auto simp: scannerStep_def state0_def split: if_splits)
next
  case StateDot0
  with assms show ?thesis
    using stateEndValue_nested [OF assms(1), of c s' code]
    by (auto simp: scannerStep_def stateDot0_def split: if_splits)
next
  case StateE
  with assms show ?thesis
    by (auto simp: scannerStep_def stateE_def stateESign_def expect_def scanner_error_def
        split: if_splits)
next
  case StateESign
  with assms show ?thesis
    by (auto simp: scannerStep_def stateESign_def expect_def scanner_error_def split: if_splits)
next
  case StateE0
  with assms show ?thesis
    using stateEndValue_nested [OF assms(1), of c s' code]
    by (auto simp: scannerStep_def stateE0_def split: if_splits)
qed (use assms in \<open>auto simp: scannerStep_def expect_def scanner_error_def split: if_splits\<close>)

lemma topInv_weak:
  "parseState s \<noteq> [] \<or> step s = StateEndTop \<or> step s = StateError \<Longrightarrow> topInv s fb"
  by (auto simp: topInv_def isNumState_def isBeginInner_def)

lemma topInv_step:
  assumes "topInv s fb" and "scannerStep s c = (s', code)"
  shows "topInv s' (snocByte fb c)"
proof (cases "parseState s = []")
  case True
  from topInv_top [OF True assms] show ?thesis .
next
  case False
  from scannerStep_nested [OF False assms(2)] show ?thesis by (rule topInv_weak)
qed

lemma topInv_scanValue:
  assumes "topInv s (firstByte seen)" and "scanValue s cs n = Exhausted s'"
  shows "topInv s' (firstByte (seen @ cs))"
  using assms
proof (induction cs arbitrary: s seen n)
  case Nil
  then show ?case by simp
next
  case (Cons c cs)
  obtain s1 code where st: "scannerStep s c = (s1, code)" by (cases "scannerStep s c")
  obtain s2 code' where ev: "stateEndValue s1 (CHR '' '') = (s2, code')"
    by (cases "stateEndValue s1 (CHR '' '')")
  have inv1: "topInv s1 (firstByte (seen @ [c]))"
    using topInv_step [OF Cons.prems(1) st] by (simp add: firstByte_snoc)
  have inv2: "topInv s2 (firstByte (seen @ [c]))" if "code' \<noteq> scanEnd"
  proof (cases "parseState s1 = []")
    case True
    with ev that show ?thesis by (simp add: stateEndValue_def stateEndTop_def split: if_splits)
  next
    case False
    from stateEndValue_nested [OF False ev] show ?thesis by (rule topInv_weak)
  qed
  have "scanValue s1 cs (Suc n) = Exhausted s' \<or> (code' \<noteq> scanEnd \<and> scanValue s2 cs (Suc n) = Exhausted s')"
    using Cons.prems(2) st ev by (cases code) (auto split: if_splits)
  then show ?case
  proof
    assume "scanValue s1 cs (Suc n) = Exhausted s'"
    from Cons.IH [OF inv1 this] show ?thesis by simp
  next
    assume a: "code' \<noteq> scanEnd \<and> scanValue s2 cs (Suc n) = Exhausted s'"
    from Cons.IH [OF inv2 [OF a [THEN conjunct1]] a [THEN conjunct2]] show ?thesis by simp
  qed
qed

lemma cutInNumber_first:
  assumes "cutInNumber x"
  shows "\<exists>a as. dropWhile isSpace x = a # as \<and> numStart a"
proof -
  from assms obtain s where ex: "scanValue scanner_reset x 0 = Exhausted s"
    and st: "step s \<in> {State1, State0, StateDot0, StateE0}" and ps: "parseState s = []"
    by (auto simp: cutInNumber_def split: scan_result.splits)
  have "topInv scanner_reset (firstByte [])"
    by (simp add: topInv_def scanner_reset_def firstByte_def isBeginInner_def isNumState_def)
  from topInv_scanValue [OF this ex] have "topInv s (firstByte x)" by simp
  with st ps have "numFirst (firstByte x)"
    by (auto simp: topInv_def isNumState_def)
  then show ?thesis
    by (auto simp: numFirst_def firstByte_def split: option.splits list.splits)
qed

lemma scanValue_open_arrays:
  assumes "step s = StateBeginValue \<or> step s = StateBeginValueOrEmpty"
    and "length (parseState s) \<le> maxNestingDepth"
  shows "scanValue s (replicate n (CHR ''['')) p =
     (if maxNestingDepth < length (parseState s) + n then ScanFailed
      else Exhausted (s\<lparr>step := (if n = 0 then step s else StateBeginValueOrEmpty),
                       parseState := replicate n parseArrayValue @ parseState s\<rparr>))"
  using assms
proof (induction n arbitrary: s p)
  case 0
  then show ?case by simp
next
  case (Suc n)
  let ?s' = "s\<lparr>step := StateBeginValueOrEmpty, parseState := parseArrayValue # parseState s\<rparr>"
  have sp: "\<not> isSpace (CHR ''['')" by (simp add: isSpace_def)
  have st: "scannerStep s (CHR ''['') =
      (if Suc (length (parseState s)) \<le> maxNestingDepth then (?s', scanBeginArray)
       else scanner_error ?s')"
    using Suc.prems sp
    by (auto simp: scannerStep_def stateBeginValueOrEmpty_def stateBeginValue_def
        pushParseState_def Let_def)
  show ?case
  proof (cases "Suc (length (parseState s)) \<le> maxNestingDepth")
    case True
    have "scanValue s (replicate (Suc n) (CHR ''['')) p = scanValue ?s' (replicate n (CHR ''['')) (Suc p)"
      using st True by simp
    also have "\<dots> = (if maxNestingDepth < length (parseState ?s') + n then ScanFailed
      else Exhausted (?s'\<lparr>step := (if n = 0 then step ?s' else StateBeginValueOrEmpty),
                       parseState := replicate n parseArrayValue @ parseState ?s'\<rparr>))"
      using True by (intro Suc.IH) simp_all
    finally show ?thesis by (simp add: replicate_app_Cons_same)
  next
    case False
    with st show ?thesis by (simp add: scanner_error_def)
  qed
qed

text \<open>
  The limit on the depth of nesting: \<open>maxNestingDepth\<close> opening brackets are the start of
  a document that is not complete, one more is a syntax error.
\<close>

lemma Decode_nesting_limit:
  "Decode (replicate (Suc maxNestingDepth) (CHR ''['')) = DecodeSyntaxError
   \<and> Decode (replicate maxNestingDepth (CHR ''['')) = DecodeUnexpectedEOF"
proof -
  have b: "step scanner_reset = StateBeginValue \<or> step scanner_reset = StateBeginValueOrEmpty"
    by (simp add: scanner_reset_def)
  have d: "length (parseState scanner_reset) \<le> maxNestingDepth"
    by (simp add: scanner_reset_def)
  have pos: "0 < maxNestingDepth" by (simp add: maxNestingDepth_def)
  have sp: "\<not> isSpace (CHR ''['')" "isSpace (CHR '' '')" by (simp_all add: isSpace_def)
  have 1: "Decode (replicate (Suc maxNestingDepth) (CHR ''['')) = DecodeSyntaxError"
    unfolding Decode_def readValue_def scanValue_open_arrays [OF b d]
    by (simp add: scanner_reset_def)
  have ns: "nonSpace (replicate maxNestingDepth (CHR ''[''))"
    using pos sp by (auto simp: nonSpace_def)
  have 2: "Decode (replicate maxNestingDepth (CHR ''['')) = DecodeUnexpectedEOF"
    unfolding Decode_def readValue_def scanValue_open_arrays [OF b d]
    using pos sp ns
    by (simp add: scanner_reset_def scannerStep_def stateBeginValueOrEmpty_def)
  from 1 2 show ?thesis by simp
qed

section \<open>Properties of the document splitter\<close>

declare decodeAll.simps [simp del]

declare decodeLoop.simps [simp del]

lemma decodeLoop_Decoded:
  "Decode dec = Decoded doc rest \<Longrightarrow>
     decodeLoop env st dec =
       (case emitDoc env st doc of (st', None) \<Rightarrow> decodeLoop env st' rest | (st', Some r) \<Rightarrow> (st', r))"
  by (subst decodeLoop.simps)
     (simp add: emitDoc_def Let_def split: prod.splits outcome.splits option.splits)

lemma decodeLoop_eq:
  "decodeLoop env st dec = streamResult (emitDocs env st (fst (decodeAll dec))) (snd (decodeAll dec))"
proof (induction dec arbitrary: st rule: length_induct)
  case (1 dec)
  show ?case
  proof (cases "Decode dec")
    case (Decoded doc rest)
    then have sh: "length rest < length dec" by (rule Decode_shorter)
    obtain docs e where d: "decodeAll rest = (docs, e)" by (cases "decodeAll rest")
    with Decoded have da: "decodeAll dec = (doc # docs, e)" by (simp add: decodeAll.simps [of dec])
    show ?thesis
    proof (cases "emitDoc env st doc")
      case (Pair st' x)
      show ?thesis
      proof (cases x)
        case None
        with Pair Decoded da d "1.IH" [rule_format, OF sh, of st'] show ?thesis
          by (simp add: decodeLoop_Decoded)
      next
        case (Some r)
        with Pair Decoded da show ?thesis
          by (simp add: decodeLoop_Decoded streamResult_def)
      qed
    qed
  qed (simp_all add: decodeLoop.simps [of env st dec] decodeAll.simps [of dec] streamResult_def)
qed

lemma Decode_Nil: "Decode [] = DecodeEOF"
  by (simp add: Decode_def readValue_def scannerStep_def scanner_reset_def stateBeginValue_def pushParseState_def Let_def
      isSpace_def nonSpace_def)

lemma Decode_first:
  assumes "Decode z = Decoded d r"
  shows "\<exists>a as bs. dropWhile isSpace z = a # as \<and> d = a # bs"
proof -
  obtain p z' where z: "z = p @ z'" and sp: "spaces p" and hd: "z' = [] \<or> \<not> isSpace (hd z')"
    using spaces_split [of z] by blast
  from assms z sp have dz: "Decode z' = Decoded d r" by (simp add: Decode_spaces_prefix)
  with Decode_Nil have "z' \<noteq> []" by auto
  then obtain c cs where z': "z' = c # cs" by (cases z') auto
  with hd have c: "\<not> isSpace c" by simp
  from dz obtain n where rv: "readValue z' = ReadValue n" and d: "d = dropWhile isSpace (take n z')"
    by (auto simp: Decode_def split: read_result.splits)
  from readValue_pos [OF rv] have "0 < n" by simp
  then obtain m where "n = Suc m" by (cases n) auto
  with d z' c have "d = c # take m cs" by simp
  moreover have "dropWhile isSpace z = c # cs"
    using z sp z' c by (simp add: dropWhile_spaces_append)
  ultimately show ?thesis by blast
qed

lemma scannerStep_ends_anyway:
  assumes "snd (scannerStep s (CHR '' '')) = scanEnd"
    and "step s \<notin> {State1, State0, StateDot0, StateE0}"
  shows "snd (scannerStep s c) = scanEnd"
proof -
  have sp: "isSpace (CHR '' '')" by (simp add: isSpace_def)
  have top: "snd (stateEndValue s c) = scanEnd" if "snd (stateEndValue s (CHR '' '')) = scanEnd"
    using that sp by (cases "parseState s") (auto simp: stateEndValue_def stateEndTop_def)
  show ?thesis
  proof (cases "step s")
    case StateEndValue
    with assms top show ?thesis by (simp add: scannerStep_def)
  next
    case StateEndTop
    then show ?thesis by (simp add: scannerStep_def stateEndTop_def)
  next
    case StateBeginValueOrEmpty
    with assms sp show ?thesis by (simp add: scannerStep_def stateBeginValueOrEmpty_def)
  next
    case StateBeginValue
    with assms sp show ?thesis by (simp add: scannerStep_def stateBeginValue_def pushParseState_def Let_def)
  next
    case StateBeginStringOrEmpty
    with assms sp show ?thesis by (simp add: scannerStep_def stateBeginStringOrEmpty_def)
  next
    case StateBeginString
    with assms sp show ?thesis by (simp add: scannerStep_def stateBeginString_def)
  next
    case StateInString
    with assms show ?thesis by (simp add: scannerStep_def stateInString_def)
  next
    case StateInStringEsc
    with assms show ?thesis
      by (simp add: scannerStep_def stateInStringEsc_def scanner_error_def)
  next
    case StateNeg
    with assms show ?thesis
      by (simp add: scannerStep_def stateNeg_def scanner_error_def isDigit19_def)
  next
    case StateE
    with assms show ?thesis
      by (simp add: scannerStep_def stateE_def stateESign_def expect_def scanner_error_def isDigit_def)
  next
    case StateESign
    with assms show ?thesis
      by (simp add: scannerStep_def stateESign_def expect_def scanner_error_def isDigit_def)
  qed (use assms in \<open>simp_all add: scannerStep_def expect_def scanner_error_def isDigit_def isHex_def\<close>)
qed

lemma numeric_end_top:
  assumes "snd (scannerStep s (CHR '' '')) = scanEnd"
    and "step s \<in> {State1, State0, StateDot0, StateE0}"
  shows "parseState s = []"
proof (rule ccontr)
  assume "parseState s \<noteq> []"
  then obtain p ps where "parseState s = p # ps" by (cases "parseState s") auto
  with assms show False
    by (auto simp: scannerStep_def state1_def state0_def stateDot0_def stateE0_def
        stateEndValue_def isDigit_def isSpace_def)
qed

lemma Decode_append:
  assumes "Decode x = Decoded d r" and "\<not> cutInNumber x"
  shows "Decode (x @ y) = Decoded d (r @ y)"
proof (cases "scanValue scanner_reset x 0")
  case (ValueEnd n)
  then have n: "n \<le> length x" using scanValue_le [of scanner_reset x 0 n] by simp
  from ValueEnd have "scanValue scanner_reset (x @ y) 0 = ValueEnd n"
    by (simp add: scanValue_append)
  with ValueEnd assms(1) n show ?thesis
    by (simp add: Decode_def readValue_def)
next
  case ScanFailed
  with assms(1) show ?thesis by (simp add: Decode_def readValue_def)
next
  case (Exhausted s)
  with assms(1) have fin: "snd (scannerStep s (CHR '' '')) = scanEnd"
    and d: "d = dropWhile isSpace x" and r: "r = []"
    by (auto simp: Decode_def readValue_def split: if_splits)
  have notnum: "step s \<notin> {State1, State0, StateDot0, StateE0}"
  proof
    assume a: "step s \<in> {State1, State0, StateDot0, StateE0}"
    from numeric_end_top [OF fin a] a Exhausted assms(2) show False
      by (simp add: cutInNumber_def)
  qed
  show ?thesis
  proof (cases y)
    case Nil
    with assms(1) r show ?thesis by simp
  next
    case (Cons c cs)
    obtain s' code where st: "scannerStep s c = (s', code)" by (cases "scannerStep s c")
    with scannerStep_ends_anyway [OF fin notnum, of c] have "code = scanEnd" by simp
    with st Exhausted Cons have "scanValue scanner_reset (x @ y) 0 = ValueEnd (length x)"
      by (simp add: scanValue_append)
    with d r show ?thesis by (simp add: Decode_def readValue_def)
  qed
qed

lemma Decode_append_syntax:
  assumes "Decode x = DecodeSyntaxError"
  shows "Decode (x @ y) = DecodeSyntaxError"
proof (cases "scanValue scanner_reset x 0")
  case ScanFailed
  then show ?thesis by (simp add: Decode_def readValue_def scanValue_append)
qed (use assms in \<open>auto simp: Decode_def readValue_def split: if_splits\<close>)

lemma Decode_EOF_spaces: "Decode x = DecodeEOF \<Longrightarrow> spaces x"
  by (cases "scanValue scanner_reset x 0")
     (auto simp: Decode_def readValue_def nonSpace_iff split: if_splits)

lemma Decode_cut:
  assumes "cutInNumber x" and "Decode (x @ y) = Decoded d r"
  shows "isNumberDoc d"
proof -
  from cutInNumber_first [OF assms(1)] obtain a as where
    x: "dropWhile isSpace x = a # as" and a: "numStart a" by blast
  then obtain b where "b \<in> set x" "\<not> isSpace b"
    by (metis dropWhile_eq_Nil_conv list.distinct(1))
  then have "dropWhile isSpace (x @ y) = dropWhile isSpace x @ y"
    by (rule dropWhile_append1)
  with x Decode_first [OF assms(2)] a show ?thesis
    by (auto simp: isNumberDoc_def)
qed

lemma decodeAll_Decoded:
  "Decode z = Decoded d r \<Longrightarrow> decodeAll z = (d # fst (decodeAll r), snd (decodeAll r))"
  by (subst decodeAll.simps) (simp split: prod.splits)

lemma decodeAll_append:
  assumes "nonNumberDocuments (x @ y)" and "decodeAll x = (ds, e)"
  shows "e \<noteq> MalformedDocument \<and>
         decodeAll (x @ y) =
           (ds @ fst (decodeAll (residual e @ y)), snd (decodeAll (residual e @ y)))"
  using assms
proof (induction x arbitrary: ds e rule: length_induct)
  case (1 x)
  note H = "1.prems"(1) and dx = "1.prems"(2)
  show ?case
  proof (cases "Decode x")
    case DecodeEOF
    then have sp: "spaces x" by (rule Decode_EOF_spaces)
    then have same: "Decode (x @ y) = Decode y" by (rule Decode_spaces_prefix)
    from DecodeEOF dx have de: "ds = []" "e = EndOfInput" by (simp_all add: decodeAll.simps [of x])
    have "Decode y \<noteq> DecodeUnexpectedEOF"
    proof
      assume "Decode y = DecodeUnexpectedEOF"
      with same have "snd (decodeAll (x @ y)) = IncompleteDocument (x @ y)"
        by (simp add: decodeAll.simps [of "x @ y"])
      with H show False by (simp add: nonNumberDocuments_def)
    qed
    then have "decodeAll (x @ y) = decodeAll y"
      using same
      by (cases "Decode y") (simp_all add: decodeAll.simps [of "x @ y"] decodeAll.simps [of y])
    with de show ?thesis by (simp add: residual_def)
  next
    case DecodeUnexpectedEOF
    with dx show ?thesis by (auto simp: decodeAll.simps [of x] residual_def)
  next
    case DecodeSyntaxError
    then have "Decode (x @ y) = DecodeSyntaxError" by (rule Decode_append_syntax)
    then have "snd (decodeAll (x @ y)) = MalformedDocument"
      by (simp add: decodeAll.simps [of "x @ y"])
    with H show ?thesis by (simp add: nonNumberDocuments_def)
  next
    case (Decoded d r)
    have nocut: "\<not> cutInNumber x"
    proof
      assume cut: "cutInNumber x"
      show False
      proof (cases "Decode (x @ y)")
        case (Decoded d' r')
        from Decode_cut [OF cut this] decodeAll_Decoded [OF this] H show False
          by (simp add: nonNumberDocuments_def)
      next
        case DecodeSyntaxError
        then have "snd (decodeAll (x @ y)) = MalformedDocument"
          by (simp add: decodeAll.simps [of "x @ y"])
        with H show False by (simp add: nonNumberDocuments_def)
      next
        case DecodeUnexpectedEOF
        then have "snd (decodeAll (x @ y)) = IncompleteDocument (x @ y)"
          by (simp add: decodeAll.simps [of "x @ y"])
        with H show False by (simp add: nonNumberDocuments_def)
      next
        case DecodeEOF
        then have "spaces (x @ y)" by (rule Decode_EOF_spaces)
        then have "spaces x" by (simp add: spaces_def)
        with cutInNumber_first [OF cut] show False
          by (auto simp: spaces_def list_all_iff dropWhile_eq_Nil_conv
              dest!: arg_cong [where f = "\<lambda>l. l = []"])
      qed
    qed
    from Decode_append [OF Decoded nocut] have dxy: "Decode (x @ y) = Decoded d (r @ y)" .
    from Decoded have sh: "length r < length x" by (rule Decode_shorter)
    obtain dsr er where dr: "decodeAll r = (dsr, er)" by (cases "decodeAll r")
    from decodeAll_Decoded [OF Decoded] dr dx have de: "ds = d # dsr" "e = er" by simp_all
    from decodeAll_Decoded [OF dxy] H have Hr: "nonNumberDocuments (r @ y)"
      by (simp add: nonNumberDocuments_def)
    from "1.IH" [rule_format, OF sh Hr dr]
    have "er \<noteq> MalformedDocument" and
      "decodeAll (r @ y) =
         (dsr @ fst (decodeAll (residual er @ y)), snd (decodeAll (residual er @ y)))"
      by simp_all
    with decodeAll_Decoded [OF dxy] de show ?thesis by simp
  qed
qed

lemma nonNumberDocuments_residual:
  assumes "nonNumberDocuments (x @ y)" and "decodeAll x = (ds, e)"
  shows "nonNumberDocuments (residual e @ y)"
  using decodeAll_append [OF assms] assms(1)
  by (simp add: nonNumberDocuments_def)

lemma decodeAll_incomplete:
  "decodeAll z = (ds, IncompleteDocument tail) \<Longrightarrow>
     (\<exists>consumed. z = consumed @ tail) \<and> Decode tail = DecodeUnexpectedEOF"
proof (induction z arbitrary: ds rule: length_induct)
  case (1 z)
  show ?case
  proof (cases "Decode z")
    case (Decoded d r)
    then have sh: "length r < length z" by (rule Decode_shorter)
    from Decoded obtain n where r: "r = drop n z"
      by (auto simp: Decode_def split: read_result.splits)
    from decodeAll_Decoded [OF Decoded] "1.prems"
    have "decodeAll r = (fst (decodeAll r), IncompleteDocument tail)" by simp
    from "1.IH" [rule_format, OF sh this] obtain c where "r = c @ tail"
      and t: "Decode tail = DecodeUnexpectedEOF" by blast
    with r have "z = (take n z @ c) @ tail" by (metis append_assoc append_take_drop_id)
    with t show ?thesis by blast
  qed (use "1.prems" in \<open>auto simp: decodeAll.simps [of z]\<close>)
qed

lemma flushAttempts_error:
  "flushAttempts u w retries attempt err = (u', w', Some e) \<Longrightarrow> \<exists>e0 c. e = Wrap e0 c"
proof (induction u w retries attempt err arbitrary: u' w' e rule: flushAttempts.induct)
  case (1 uploader w retries attempt err)
  show ?case
  proof (cases "attempt < retries")
    case False
    with "1.prems" show ?thesis
      by (auto simp: flushAttempts.simps errors_Wrap_def split: option.splits)
  next
    case True
    obtain w1 r1 where en: "enqueueToSQS uploader w = (w1, r1)" by (cases "enqueueToSQS uploader w")
    show ?thesis
    proof (cases r1)
      case None
      with True en "1.prems" show ?thesis by (simp add: flushAttempts.simps)
    next
      case (Some e1)
      with True en "1.prems"
      have "flushAttempts uploader w1 retries (attempt + 1) (Some e1) = (u', w', Some e)"
        by (simp add: flushAttempts.simps)
      from "1.IH" [OF True en [symmetric] Some this] show ?thesis .
    qed
  qed
qed

lemma AddToBatch_error:
  assumes "AddToBatch u w ident body = (u', w', Returns (Some e))"
  shows "e \<noteq> ErrUnexpectedEOF"
proof (cases "int (length body) > messageSizeLimit")
  case True
  with assms show ?thesis by (auto simp: AddToBatch_def)
next
  case False
  define pre where "pre = (if int (length body) + totalBytes u > messageSizeLimit
                  \<or> int (length (messageList u)) = maxMessagesPerBatch
               then Flush u w else (u, w, None))"
  obtain u1 w1 r1 where pre: "pre = (u1, w1, r1)" by (cases pre)
  from assms False pre have "r1 = Some e"
    by (auto simp: AddToBatch_def Let_def pre_def [symmetric] split: option.splits)
  with pre have "Flush u w = (u1, w1, Some e)" by (auto simp: pre_def split: if_splits)
  then have "\<exists>e0 c. e = Wrap e0 c"
    by (auto simp: Flush_def split: if_splits dest: flushAttempts_error)
  then show ?thesis by auto
qed

lemma emitDoc_stop:
  assumes "emitDoc env st doc = (st', Some r)"
  shows "r \<noteq> Returns None \<and> r \<noteq> Returns (Some ErrUnexpectedEOF)"
proof (cases "int (length doc) > messageSizeLimit")
  case True
  with assms show ?thesis by (auto simp: emitDoc_def)
next
  case False
  define st1 where "st1 = st\<lparr>itemIndex := itemIndex st + 1,
                      jsonMessageList := Add (jsonMessageList st) doc\<rparr>"
  obtain u1 w1 n1 x where a: "addJSONObjectsToQueue env (ing_uploader st1) (ing_sqs st1) (ing_drawn st1)
                  (jsonMessageList st1) = (u1, w1, n1, x)"
    by (cases "addJSONObjectsToQueue env (ing_uploader st1) (ing_sqs st1) (ing_drawn st1)
                  (jsonMessageList st1)") auto
  have "x \<noteq> Returns (Some ErrUnexpectedEOF)"
    using a by (auto simp: addJSONObjectsToQueue_def split: option.splits prod.splits
        dest: AddToBatch_error)
  with assms False a show ?thesis
    by (auto simp: emitDoc_def Let_def st1_def [symmetric]
        split: if_splits outcome.splits option.splits)
qed

lemma emitDocs_stop:
  "emitDocs env st docs = (st', Some r) \<Longrightarrow>
     r \<noteq> Returns None \<and> r \<noteq> Returns (Some ErrUnexpectedEOF)"
proof (induction docs arbitrary: st)
  case Nil
  then show ?case by simp
next
  case (Cons d docs)
  obtain st1 x where e: "emitDoc env st d = (st1, x)" by (cases "emitDoc env st d")
  show ?case
  proof (cases x)
    case None
    with Cons e show ?thesis by simp
  next
    case (Some r1)
    with Cons.prems e emitDoc_stop [of env st d st1 r1] show ?thesis by simp
  qed
qed

lemma emitDocs_append:
  "emitDocs env st (ds1 @ ds2) =
     (case emitDocs env st ds1 of
        (st', None) \<Rightarrow> emitDocs env st' ds2
      | (st', Some r) \<Rightarrow> (st', Some r))"
  by (induction ds1 arbitrary: st) (auto split: prod.splits option.splits)

lemma emitDoc_buffer:
  "emitDoc env (st\<lparr>bytesBuffer := b\<rparr>) doc =
     (case emitDoc env st doc of (st', x) \<Rightarrow> (st'\<lparr>bytesBuffer := b\<rparr>, x))"
  by (auto simp: emitDoc_def Let_def split: prod.splits outcome.splits option.splits)

lemma emitDocs_buffer:
  "emitDocs env (st\<lparr>bytesBuffer := b\<rparr>) docs =
     (case emitDocs env st docs of (st', x) \<Rightarrow> (st'\<lparr>bytesBuffer := b\<rparr>, x))"
proof (induction docs arbitrary: st)
  case Nil
  then show ?case by simp
next
  case (Cons d docs)
  obtain st1 x where e: "emitDoc env st d = (st1, x)" by (cases "emitDoc env st d")
  with Cons.IH [of st1] show ?case
    by (cases x) (simp_all add: emitDoc_buffer)
qed

lemma chunkCallback_emitted:
  assumes "decodeAll (bytesBuffer st @ chunk) = (docs, e)"
    and "emitDocs env (st\<lparr>bytesBuffer := bytesBuffer st @ chunk\<rparr>) docs = (st', None)"
  shows "chunkCallback env st chunk isLastChunk =
     (case e of
        EndOfInput \<Rightarrow> (st'\<lparr>bytesBuffer := []\<rparr>, Returns (True, None))
      | IncompleteDocument tail \<Rightarrow>
          if isLastChunk then (st'\<lparr>bytesBuffer := tail\<rparr>, Returns (False, Some ErrUnexpectedEOF))
          else (st'\<lparr>bytesBuffer := tail\<rparr>, Returns (True, None))
      | MalformedDocument \<Rightarrow> (st', Returns (False, Some SyntaxError)))"
  using assms
  by (cases e)
     (simp_all add: chunkCallback_def streamJSONToQueue_def decodeLoop_eq streamResult_def)

lemma chunkCallback_stopped:
  assumes "decodeAll (bytesBuffer st @ chunk) = (docs, e)"
    and "emitDocs env (st\<lparr>bytesBuffer := bytesBuffer st @ chunk\<rparr>) docs = (st', Some r)"
  shows "chunkCallback env st chunk isLastChunk =
     (case r of Panics p \<Rightarrow> (st', Panics p) | Returns x \<Rightarrow> (st', Returns (False, x)))
     \<and> r \<noteq> Returns None"
proof -
  from emitDocs_stop [OF assms(2)] have r: "r \<noteq> Returns None" "r \<noteq> Returns (Some ErrUnexpectedEOF)"
    by simp_all
  show ?thesis
  proof (cases r)
    case (Panics p)
    with assms show ?thesis
      by (simp add: chunkCallback_def streamJSONToQueue_def decodeLoop_eq streamResult_def)
  next
    case (Returns x)
    with r obtain err where "x = Some err" "err \<noteq> ErrUnexpectedEOF" by (cases x) auto
    with Returns assms show ?thesis
      by (simp add: chunkCallback_def streamJSONToQueue_def decodeLoop_eq streamResult_def)
  qed
qed

text \<open>
  The carry-over of lines 306-309.  When the decoder, after the complete documents
  \<open>docs\<close> of the buffer with the chunk appended, reports an unexpected end of input at
  \<open>tail\<close>, and the complete documents are emitted without error, the chunk callback keeps
  the iteration going without an error when more chunks follow, and returns the
  unexpected-end-of-input error when the chunk is the last one of the file, so that the
  file's iteration fails with it.  In both cases the buffer is left holding exactly the
  undecoded tail: a suffix of the bytes read, on which the decoder still reports the
  unexpected end of input.
\<close>

theorem chunk_ending_mid_document:
  assumes "decodeAll (bytesBuffer st @ chunk) = (docs, IncompleteDocument tail)"
    and "emitDocs env (st\<lparr>bytesBuffer := bytesBuffer st @ chunk\<rparr>) docs = (st', None)"
  shows "chunkCallback env st chunk False = (st'\<lparr>bytesBuffer := tail\<rparr>, Returns (True, None))
     \<and> chunkCallback env st chunk True =
         (st'\<lparr>bytesBuffer := tail\<rparr>, Returns (False, Some ErrUnexpectedEOF))
     \<and> S3FileIterator (chunkCallback env) st [chunk] =
         (st'\<lparr>bytesBuffer := tail\<rparr>, Returns (Some ErrUnexpectedEOF))
     \<and> (\<exists>consumed. bytesBuffer st @ chunk = consumed @ tail)
     \<and> Decode tail = DecodeUnexpectedEOF"
  using chunkCallback_emitted [OF assms] decodeAll_incomplete [OF assms(1)]
  by simp

lemma S3FileIterator_chunks:
  assumes "nonNumberDocuments (bytesBuffer st @ concat (c # cs))"
  shows "forgetBuffer (S3FileIterator (chunkCallback env) st (c # cs)) =
         emitStream env st (bytesBuffer st @ concat (c # cs))
       \<and> (snd (S3FileIterator (chunkCallback env) st (c # cs)) = Returns None \<longrightarrow>
            bytesBuffer (fst (S3FileIterator (chunkCallback env) st (c # cs))) = [])"
  using assms
proof (induction cs arbitrary: c st)
  case Nil
  let ?z = "bytesBuffer st @ c"
  obtain docs e where da: "decodeAll ?z = (docs, e)" by (cases "decodeAll ?z")
  with Nil have e: "e = EndOfInput" by (simp add: nonNumberDocuments_def)
  obtain st' x where em: "emitDocs env (st\<lparr>bytesBuffer := ?z\<rparr>) docs = (st', x)"
    by (cases "emitDocs env (st\<lparr>bytesBuffer := ?z\<rparr>) docs")
  have em0: "emitDocs env (st\<lparr>bytesBuffer := []\<rparr>) docs = (st'\<lparr>bytesBuffer := []\<rparr>, x)"
    using em emitDocs_buffer [where st = "st\<lparr>bytesBuffer := ?z\<rparr>" and b = "[]" and docs = docs and env = env]
    by simp
  show ?case
  proof (cases x)
    case None
    with chunkCallback_emitted [OF da, of env st' True] em e em0 da show ?thesis
      by (simp add: forgetBuffer_def emitStream_def)
  next
    case (Some r)
    with chunkCallback_stopped [OF da, of env st' r True] em em0 da show ?thesis
      by (cases r) (auto simp: forgetBuffer_def emitStream_def split: option.splits)
  qed
next
  case (Cons c2 cs)
  let ?z = "bytesBuffer st @ c"
  let ?y = "concat (c2 # cs)"
  have H: "nonNumberDocuments (?z @ ?y)" using Cons.prems by simp
  obtain docs e where da: "decodeAll ?z = (docs, e)" by (cases "decodeAll ?z")
  from decodeAll_append [OF H da]
  have ne: "e \<noteq> MalformedDocument"
    and whole: "decodeAll (?z @ ?y) =
           (docs @ fst (decodeAll (residual e @ ?y)), snd (decodeAll (residual e @ ?y)))"
    by simp_all
  note Hres = nonNumberDocuments_residual [OF H da]
  obtain st' x where em: "emitDocs env (st\<lparr>bytesBuffer := ?z\<rparr>) docs = (st', x)"
    by (cases "emitDocs env (st\<lparr>bytesBuffer := ?z\<rparr>) docs")
  have em0: "emitDocs env (st\<lparr>bytesBuffer := []\<rparr>) docs = (st'\<lparr>bytesBuffer := []\<rparr>, x)"
    using em emitDocs_buffer [where st = "st\<lparr>bytesBuffer := ?z\<rparr>" and b = "[]" and docs = docs and env = env]
    by simp
  show ?case
  proof (cases x)
    case (Some r)
    with chunkCallback_stopped [OF da, of env st' r False] em em0 whole show ?thesis
      by (cases r) (auto simp: forgetBuffer_def emitStream_def emitDocs_append split: option.splits)
  next
    case None
    define st2 where "st2 = st'\<lparr>bytesBuffer := residual e\<rparr>"
    have cb: "chunkCallback env st c False = (st2, Returns (True, None))"
      using chunkCallback_emitted [OF da, of env st' False] em None ne
      by (cases e) (simp_all add: st2_def residual_def)
    have b2: "bytesBuffer st2 = residual e" by (simp add: st2_def)
    from Cons.IH [of st2 c2] Hres b2
    have IH: "forgetBuffer (S3FileIterator (chunkCallback env) st2 (c2 # cs)) =
         emitStream env st2 (residual e @ ?y)
       \<and> (snd (S3FileIterator (chunkCallback env) st2 (c2 # cs)) = Returns None \<longrightarrow>
            bytesBuffer (fst (S3FileIterator (chunkCallback env) st2 (c2 # cs))) = [])" by simp
    have "S3FileIterator (chunkCallback env) st (c # c2 # cs) =
          S3FileIterator (chunkCallback env) st2 (c2 # cs)"
      using cb by simp
    moreover have "emitStream env st (?z @ ?y) = emitStream env st2 (residual e @ ?y)"
      using whole em0 None by (simp add: emitStream_def emitDocs_append st2_def)
    ultimately show ?thesis using IH by simp
  qed
qed

text \<open>
  Chunk boundaries do not matter for a stream that decodes, as a whole, into complete
  documents none of which is a number: every partition of the stream into chunks has the
  outcome of decoding the whole stream at once (the same documents emitted, with the same
  effects on the uploader and the queue), and the buffer is empty after a file that was read
  without error.
\<close>

theorem chunking_does_not_change_documents:
  assumes "nonNumberDocuments (concat chunks)"
    and "concat chunks' = concat chunks"
    and "bytesBuffer st = []"
  shows "forgetBuffer (S3FileIterator (chunkCallback env) st chunks') =
           forgetBuffer (S3FileIterator (chunkCallback env) st chunks)
     \<and> forgetBuffer (S3FileIterator (chunkCallback env) st chunks) =
           emitStream env st (concat chunks)
     \<and> (snd (S3FileIterator (chunkCallback env) st chunks) = Returns None \<longrightarrow>
           bytesBuffer (fst (S3FileIterator (chunkCallback env) st chunks)) = [])"
proof -
  have one: "forgetBuffer (S3FileIterator (chunkCallback env) st cs) = emitStream env st (concat cs)
      \<and> (snd (S3FileIterator (chunkCallback env) st cs) = Returns None \<longrightarrow>
           bytesBuffer (fst (S3FileIterator (chunkCallback env) st cs)) = [])"
    if "nonNumberDocuments (concat cs)" for cs
  proof (cases cs)
    case Nil
    have "Decode [] = DecodeEOF" by (rule Decode_Nil)
    then have "decodeAll [] = ([], EndOfInput)" by (simp add: decodeAll.simps [of "[]"])
    with Nil assms(3) show ?thesis
      by (simp add: forgetBuffer_def emitStream_def)
  next
    case (Cons c cs')
    with that assms(3) S3FileIterator_chunks [of st c cs' env] show ?thesis by simp
  qed
  from one [of chunks] one [of chunks'] assms(1,2) show ?thesis by simp
qed

text \<open>Evaluating the scanner on a concrete input, one byte at a time.\<close>

lemma scanValue_Cons:
  "scanValue s (c # cs) n =
     (let r = scannerStep s c in
      if snd r = scanEnd then ValueEnd n
      else if snd r = scanError then ScanFailed
      else if snd r = scanEndObject \<or> snd r = scanEndArray then
        (if snd (stateEndValue (fst r) (CHR '' '')) = scanEnd then ValueEnd (Suc n)
         else scanValue (fst (stateEndValue (fst r) (CHR '' ''))) cs (Suc n))
      else scanValue (fst r) cs (Suc n))"
  by (cases "scannerStep s c"; cases "snd (scannerStep s c)")
     (auto simp: Let_def split: prod.splits)

lemmas scan_eval =
  Decode_def readValue_def nonSpace_def maxNestingDepth_def
  scanValue_Cons scanValue.simps(1) Let_def scannerStep_def scanner_reset_def state_defs
  isSpace_def isDigit_def isDigit19_def isHex_def

lemma exampleStream_docs:
  "decodeAll exampleStream = ([exampleDoc ''a'', exampleDoc ''b'', exampleDoc ''c''], EndOfInput)"
proof -
  have 1: "Decode exampleStream = Decoded (exampleDoc ''a'') (exampleDoc ''b'' @ exampleDoc ''c'')"
    by (simp add: exampleStream_def exampleDoc_def scan_eval del: scanValue.simps(2))
  have 2: "Decode (exampleDoc ''b'' @ exampleDoc ''c'') = Decoded (exampleDoc ''b'') (exampleDoc ''c'')"
    by (simp add: exampleDoc_def scan_eval del: scanValue.simps(2))
  have 3: "Decode (exampleDoc ''c'') = Decoded (exampleDoc ''c'') []"
    by (simp add: exampleDoc_def scan_eval del: scanValue.simps(2))
  have 4: "decodeAll [] = ([], EndOfInput)"
    using Decode_Nil by (simp add: decodeAll.simps [of "[]"])
  show ?thesis
    by (simp add: decodeAll_Decoded [OF 1] decodeAll_Decoded [OF 2] decodeAll_Decoded [OF 3] 4)
qed

text \<open>
  The stream \<open>{"a":1}{"b":2}{"c":3}\<close> in chunks of 5 bytes and with a batch size of 2
  documents: one batch of two documents is added to the uploader and the third document
  is left in the document list, as when the stream arrives in one chunk.
\<close>

theorem chunking_does_not_change_documents_witness:
  "nonNumberDocuments exampleStream
   \<and> concat [take 5 exampleStream, take 5 (drop 5 exampleStream), take 5 (drop 10 exampleStream),
              take 5 (drop 15 exampleStream), drop 20 exampleStream] = concat [exampleStream]
   \<and> bytesBuffer (startIngest (emptyUploader okClient ''q'') 2) = []
   \<and> forgetBuffer (S3FileIterator (chunkCallback (exampleEnv okClient))
         (startIngest (emptyUploader okClient ''q'') 2)
         [take 5 exampleStream, take 5 (drop 5 exampleStream), take 5 (drop 10 exampleStream),
          take 5 (drop 15 exampleStream), drop 20 exampleStream]) =
       forgetBuffer (S3FileIterator (chunkCallback (exampleEnv okClient))
         (startIngest (emptyUploader okClient ''q'') 2) [exampleStream])
   \<and> map MessageBody (messageList (ing_uploader (fst (forgetBuffer
         (S3FileIterator (chunkCallback (exampleEnv okClient))
           (startIngest (emptyUploader okClient ''q'') 2) [exampleStream]))))) =
       [''['' @ exampleDoc ''a'' @ '','' @ exampleDoc ''b'' @ '']'']
   \<and> messageList_json (jsonMessageList (fst (forgetBuffer
         (S3FileIterator (chunkCallback (exampleEnv okClient))
           (startIngest (emptyUploader okClient ''q'') 2) [exampleStream])))) =
       [exampleDoc ''c'']"
proof -
  let ?st = "startIngest (emptyUploader okClient ''q'') 2"
  let ?cs = "[take 5 exampleStream, take 5 (drop 5 exampleStream), take 5 (drop 10 exampleStream),
              take 5 (drop 15 exampleStream), drop 20 exampleStream]"
  have H: "nonNumberDocuments (concat [exampleStream])"
    by (simp add: nonNumberDocuments_def exampleStream_docs isNumberDoc_def numStart_def
        isDigit_def exampleDoc_def)
  have c: "concat ?cs = concat [exampleStream]"
    by (simp add: exampleStream_def exampleDoc_def)
  have b: "bytesBuffer ?st = []" by (simp add: startIngest_def)
  note t = chunking_does_not_change_documents [OF H c b, of "exampleEnv okClient"]
  have e: "emitStream (exampleEnv okClient) ?st exampleStream =
      (?st\<lparr>itemIndex := 3,
            jsonMessageList := \<lparr>BatchSize = 2, messageList_json = [exampleDoc ''c'']\<rparr>,
            ing_drawn := 1,
            ing_uploader := (emptyUploader okClient ''q'')
              \<lparr>messageList := [entry ''id'' (''['' @ exampleDoc ''a'' @ '','' @ exampleDoc ''b'' @ '']'')],
               messageIDToListIndex := Some [''id'' \<mapsto> 0],
               totalBytes := 17, TotalBatches := 1\<rparr>\<rparr>, Returns None)"
    by (simp add: emitStream_def exampleStream_docs emitDoc_def Let_def startIngest_def
        Add_def Length_def Clear_def addJSONObjectsToQueue_def exampleEnv_def marshalRaw_def
        AddToBatch_def emptyUploader_def newUploader_def entry_def exampleDoc_def
        messageSizeLimit_def maxMessagesPerBatch_def)
  note eq1 = t [THEN conjunct1]
  note eq2 = t [THEN conjunct2, THEN conjunct1]
  from eq2 e have eq3: "forgetBuffer (S3FileIterator (chunkCallback (exampleEnv okClient)) ?st
         [exampleStream]) =
      (?st\<lparr>itemIndex := 3,
            jsonMessageList := \<lparr>BatchSize = 2, messageList_json = [exampleDoc ''c'']\<rparr>,
            ing_drawn := 1,
            ing_uploader := (emptyUploader okClient ''q'')
              \<lparr>messageList := [entry ''id'' (''['' @ exampleDoc ''a'' @ '','' @ exampleDoc ''b'' @ '']'')],
               messageIDToListIndex := Some [''id'' \<mapsto> 0],
               totalBytes := 17, TotalBatches := 1\<rparr>\<rparr>, Returns None)"
    by (simp del: S3FileIterator.simps)
  from H have H': "nonNumberDocuments exampleStream" by simp
  from H' c b eq1 show ?thesis
    unfolding eq3 by (simp del: S3FileIterator.simps add: entry_def)
qed

lemma decodeAll_Nil: "decodeAll [] = ([], EndOfInput)"
  using Decode_Nil by (simp add: decodeAll.simps [of "[]"])

lemma decodeAll_single:
  "Decode z = Decoded d [] \<Longrightarrow> decodeAll z = ([d], EndOfInput)"
  by (simp add: decodeAll_Decoded decodeAll_Nil)

lemmas run_eval =
  chunkCallback_def streamJSONToQueue_def decodeLoop_eq streamResult_def emitDoc_def Let_def
  startIngest_def Add_def Length_def Clear_def messageSizeLimit_def

lemma spaces_padding: "spaces (padding n)"
  by (induction n) (simp_all add: padding_def spaces_def isSpace_def)

lemma decodeAll_padded_single:
  "Decode z = Decoded d [] \<Longrightarrow> decodeAll (padding n @ z) = ([d], EndOfInput)"
  by (simp add: decodeAll_single Decode_spaces_prefix spaces_padding)

text \<open>
  Claim C5 fails on a stream of numbers.  The decoder takes a number that reaches the end
  of its input for a complete document, so a number cut by a chunk boundary is emitted as
  two documents.  The stream \<open>12\<close> is the single document \<open>12\<close> and is emitted as such
  when it arrives in one chunk; arriving as the chunks \<open>1\<close> and \<open>2\<close> it is emitted as the
  documents \<open>1\<close> and \<open>2\<close>.  The same happens at the chunk size the orchestrator reads
  with: a file of \<open>fileBuffer + 1\<close> bytes, the number \<open>12\<close> after \<open>fileBuffer - 1\<close> spaces,
  is read as a first chunk of \<open>fileBuffer\<close> bytes ending in \<open>1\<close> and a last chunk \<open>2\<close>.
\<close>

theorem number_split_by_chunk_boundary:
  "decodeAll ''12'' = ([''12''], EndOfInput)
   \<and> messageList_json (jsonMessageList (fst (S3FileIterator (chunkCallback (exampleEnv okClient))
         (startIngest (newUploader okClient ''q'') 10) [''12'']))) = [''12'']
   \<and> messageList_json (jsonMessageList (fst (S3FileIterator (chunkCallback (exampleEnv okClient))
         (startIngest (newUploader okClient ''q'') 10) [''1'', ''2'']))) = [''1'', ''2'']
   \<and> length (padding (fileBuffer - 1) @ ''1'') = fileBuffer
   \<and> decodeAll ((padding (fileBuffer - 1) @ ''1'') @ ''2'') = ([''12''], EndOfInput)
   \<and> messageList_json (jsonMessageList (fst (S3FileIterator (chunkCallback (exampleEnv okClient))
         (startIngest (newUploader okClient ''q'') 10)
         [padding (fileBuffer - 1) @ ''1'', ''2'']))) = [''1'', ''2'']"
proof -
  have D12: "Decode ''12'' = Decoded ''12'' []"
    by (simp add: scan_eval del: scanValue.simps(2))
  have D1: "Decode ''1'' = Decoded ''1'' []"
    by (simp add: scan_eval del: scanValue.simps(2))
  have D2: "Decode ''2'' = Decoded ''2'' []"
    by (simp add: scan_eval del: scanValue.simps(2))
  note d12 = decodeAll_single [OF D12]
  note d1 = decodeAll_single [OF D1]
  note d2 = decodeAll_single [OF D2]
  note p12 = decodeAll_padded_single [OF D12]
  note p1 = decodeAll_padded_single [OF D1]
  have len: "length (padding (fileBuffer - 1) @ ''1'') = fileBuffer"
    by (simp add: padding_def fileBuffer_def)
  have small: "messageList_json (jsonMessageList (fst (S3FileIterator
        (chunkCallback (exampleEnv okClient))
        (startIngest (newUploader okClient ''q'') 10) [''12'']))) = [''12'']
     \<and> messageList_json (jsonMessageList (fst (S3FileIterator
        (chunkCallback (exampleEnv okClient))
        (startIngest (newUploader okClient ''q'') 10) [''1'', ''2'']))) = [''1'', ''2'']"
    by (simp add: run_eval d12 d1 d2)
  have large: "messageList_json (jsonMessageList (fst (S3FileIterator
        (chunkCallback (exampleEnv okClient))
        (startIngest (newUploader okClient ''q'') 10)
        [padding (fileBuffer - 1) @ ''1'', ''2'']))) = [''1'', ''2'']"
    by (simp add: run_eval p1 d2)
  from p12 [of "fileBuffer - 1"]
  have whole: "decodeAll ((padding (fileBuffer - 1) @ ''1'') @ ''2'') = ([''12''], EndOfInput)"
    by simp
  from d12 small len whole large show ?thesis by blast
qed

text \<open>
  The carry-over on the chunk \<open>[1,2]  [3\<close> arriving on an empty buffer: the document
  \<open>[1,2]\<close> is emitted and the buffer keeps \<open>  [3\<close>.
\<close>

theorem chunk_ending_mid_document_witness:
  "decodeAll (bytesBuffer (startIngest (newUploader okClient ''q'') 10) @ ''[1,2]  [3'') =
     ([''[1,2]''], IncompleteDocument ''  [3'')
   \<and> chunkCallback (exampleEnv okClient) (startIngest (newUploader okClient ''q'') 10)
        ''[1,2]  [3'' False =
      ((startIngest (newUploader okClient ''q'') 10)
         \<lparr>itemIndex := 1, jsonMessageList := \<lparr>BatchSize = 10, messageList_json = [''[1,2]'']\<rparr>,
          bytesBuffer := ''  [3''\<rparr>, Returns (True, None))
   \<and> chunkCallback (exampleEnv okClient) (startIngest (newUploader okClient ''q'') 10)
        ''[1,2]  [3'' True =
      ((startIngest (newUploader okClient ''q'') 10)
         \<lparr>itemIndex := 1, jsonMessageList := \<lparr>BatchSize = 10, messageList_json = [''[1,2]'']\<rparr>,
          bytesBuffer := ''  [3''\<rparr>, Returns (False, Some ErrUnexpectedEOF))
   \<and> Decode ''  [3'' = DecodeUnexpectedEOF"
proof -
  let ?st = "startIngest (newUploader okClient ''q'') 10"
  let ?st' = "?st\<lparr>itemIndex := 1,
      jsonMessageList := \<lparr>BatchSize = 10, messageList_json = [''[1,2]'']\<rparr>,
      bytesBuffer := ''[1,2]  [3''\<rparr>"
  have 1: "Decode ''[1,2]  [3'' = Decoded ''[1,2]'' ''  [3''"
    by (simp add: scan_eval del: scanValue.simps(2))
  have 2: "Decode ''  [3'' = DecodeUnexpectedEOF"
    by (simp add: scan_eval del: scanValue.simps(2))
  have da: "decodeAll (bytesBuffer ?st @ ''[1,2]  [3'') = ([''[1,2]''], IncompleteDocument ''  [3'')"
    using 2 by (simp add: decodeAll_Decoded [OF 1] decodeAll.simps [of "''  [3''"] startIngest_def)
  have em: "emitDocs (exampleEnv okClient) (?st\<lparr>bytesBuffer := bytesBuffer ?st @ ''[1,2]  [3''\<rparr>)
      [''[1,2]''] = (?st', None)"
    by (simp add: emitDoc_def Let_def startIngest_def Add_def Length_def messageSizeLimit_def)
  from chunk_ending_mid_document [OF da em] da show ?thesis
    by (simp add: startIngest_def)
qed

text \<open>
  Claim C6 fails on a chunk that ends inside a number.  Of the stream \<open>12\<close>, a single
  document, the chunk \<open>1\<close> arrives with more chunks to follow: the buffer ends inside the
  document, but the decoder takes the number that reaches the end of its input for
  complete, so the callback emits the document \<open>1\<close> and leaves the buffer empty instead of
  keeping \<open>1\<close> for the next chunk.  The same happens on a first chunk of \<open>fileBuffer\<close> bytes
  that ends in \<open>1\<close>.  A chunk that ends inside an array, \<open>[1\<close>, is kept in the buffer and
  nothing is emitted.
\<close>

theorem number_cut_at_chunk_end_is_emitted:
  "decodeAll (''1'' @ ''2'') = ([''12''], EndOfInput)
   \<and> chunkCallback (exampleEnv okClient) (startIngest (newUploader okClient ''q'') 10) ''1'' False =
      ((startIngest (newUploader okClient ''q'') 10)
         \<lparr>itemIndex := 1, jsonMessageList := \<lparr>BatchSize = 10, messageList_json = [''1'']\<rparr>,
          bytesBuffer := []\<rparr>, Returns (True, None))
   \<and> length (padding (fileBuffer - 1) @ ''1'') = fileBuffer
   \<and> chunkCallback (exampleEnv okClient) (startIngest (newUploader okClient ''q'') 10)
        (padding (fileBuffer - 1) @ ''1'') False =
      ((startIngest (newUploader okClient ''q'') 10)
         \<lparr>itemIndex := 1, jsonMessageList := \<lparr>BatchSize = 10, messageList_json = [''1'']\<rparr>,
          bytesBuffer := []\<rparr>, Returns (True, None))
   \<and> chunkCallback (exampleEnv okClient) (startIngest (newUploader okClient ''q'') 10) ''[1'' False =
      ((startIngest (newUploader okClient ''q'') 10)\<lparr>bytesBuffer := ''[1''\<rparr>, Returns (True, None))"
proof -
  have D12: "Decode ''12'' = Decoded ''12'' []"
    by (simp add: scan_eval del: scanValue.simps(2))
  have D1: "Decode ''1'' = Decoded ''1'' []"
    by (simp add: scan_eval del: scanValue.simps(2))
  have Da: "Decode ''[1'' = DecodeUnexpectedEOF"
    by (simp add: scan_eval del: scanValue.simps(2))
  note d1 = decodeAll_single [OF D1]
  note p1 = decodeAll_padded_single [OF D1]
  have da: "decodeAll ''[1'' = ([], IncompleteDocument ''[1'')"
    using Da by (simp add: decodeAll.simps [of "''[1''"])
  have whole: "decodeAll (''1'' @ ''2'') = ([''12''], EndOfInput)"
    using decodeAll_single [OF D12] by simp
  have len: "length (padding (fileBuffer - 1) @ ''1'') = fileBuffer"
    by (simp add: padding_def fileBuffer_def)
  have small: "chunkCallback (exampleEnv okClient) (startIngest (newUploader okClient ''q'') 10) ''1'' False =
      ((startIngest (newUploader okClient ''q'') 10)
         \<lparr>itemIndex := 1, jsonMessageList := \<lparr>BatchSize = 10, messageList_json = [''1'']\<rparr>,
          bytesBuffer := []\<rparr>, Returns (True, None))"
    by (simp add: run_eval d1)
  have large: "chunkCallback (exampleEnv okClient) (startIngest (newUploader okClient ''q'') 10)
        (padding (fileBuffer - 1) @ ''1'') False =
      ((startIngest (newUploader okClient ''q'') 10)
         \<lparr>itemIndex := 1, jsonMessageList := \<lparr>BatchSize = 10, messageList_json = [''1'']\<rparr>,
          bytesBuffer := []\<rparr>, Returns (True, None))"
    by (simp add: run_eval p1)
  have open_array: "chunkCallback (exampleEnv okClient) (startIngest (newUploader okClient ''q'') 10) ''[1'' False =
      ((startIngest (newUploader okClient ''q'') 10)\<lparr>bytesBuffer := ''[1''\<rparr>, Returns (True, None))"
    by (simp add: run_eval da)
  from whole small len large open_array show ?thesis by blast
qed

text \<open>
  Claim C6 on the chunk \<open>1\<close>: what is in the document list and in the buffer once the
  callback has returned, beside the chunk \<open>[1\<close>.
\<close>

theorem number_cut_at_chunk_end_is_emitted_witness:
  "messageList_json (jsonMessageList (fst (chunkCallback (exampleEnv okClient)
       (startIngest (newUploader okClient ''q'') 10) ''1'' False))) = [''1'']
   \<and> bytesBuffer (fst (chunkCallback (exampleEnv okClient)
       (startIngest (newUploader okClient ''q'') 10) ''1'' False)) = []
   \<and> snd (chunkCallback (exampleEnv okClient)
       (startIngest (newUploader okClient ''q'') 10) ''1'' False) = Returns (True, None)
   \<and> messageList_json (jsonMessageList (fst (chunkCallback (exampleEnv okClient)
       (startIngest (newUploader okClient ''q'') 10) ''[1'' False))) = []
   \<and> bytesBuffer (fst (chunkCallback (exampleEnv okClient)
       (startIngest (newUploader okClient ''q'') 10) ''[1'' False)) = ''[1''"
proof -
  note t = number_cut_at_chunk_end_is_emitted
  note small = t [THEN conjunct2, THEN conjunct1]
  note open_array = t [THEN conjunct2, THEN conjunct2, THEN conjunct2, THEN conjunct2]
  have "messageList_json (jsonMessageList (startIngest (newUploader okClient ''q'') 10)) = []"
    by (simp add: startIngest_def)
  then show ?thesis
    unfolding small open_array by simp
qed

end
